theory Spec2Isabelle
  imports Complex_Main "HOL-Library.Multiset"
begin

section \<open>Effects of a JavaScript call: state and exceptions\<close>

text \<open>
  The library is TypeScript. A value of type \<^verbatim>\<open>Lazy<T> = () => T\<close> is a zero-argument
  function: calling it ("forcing") runs arbitrary code, which may read and change mutable
  state and may throw. A call is therefore modelled as a function from the state before
  the call to an outcome (\<open>Inl\<close> an exception, \<open>Inr\<close> the returned value) and the state
  after it. The state type \<open>'s\<close> is a parameter: the library itself has no state, all of
  it belongs to the thunks, mappers and comparators a caller passes in.
\<close>

datatype exn = TypeError | Thrown string

type_synonym ('a, 's) eff = "'s \<Rightarrow> (exn + 'a) \<times> 's"

definition ret :: "'a \<Rightarrow> ('a, 's) eff" where
  "ret v = (\<lambda>s. (Inr v, s))"

definition throw :: "exn \<Rightarrow> ('a, 's) eff" where
  "throw e = (\<lambda>s. (Inl e, s))"

text \<open>Sequencing: an exception of the first step skips the rest, the state it left stays.\<close>

definition bnd :: "('a, 's) eff \<Rightarrow> ('a \<Rightarrow> ('b, 's) eff) \<Rightarrow> ('b, 's) eff" where
  "bnd m f = (\<lambda>s. case m s of (Inl e, s') \<Rightarrow> (Inl e, s') | (Inr v, s') \<Rightarrow> f v s')"

lemma bnd_cong [fundef_cong]:
  assumes "m s = m' s'" and "\<And>v s1. m' s' = (Inr v, s1) \<Longrightarrow> f v s1 = f' v s1"
  shows "bnd m f s = bnd m' f' s'"
  using assms by (auto simp: bnd_def split: prod.splits sum.splits)

section \<open>Lazy values and lazy arrays\<close>

text \<open>
  \<^verbatim>\<open>type Lazy<T> = () => T;\<close>
  \<^verbatim>\<open>const lazify = <T>(val: T): Lazy<T> => (() => val);\<close>
  The argument of \<open>lazify\<close> is a value: JavaScript evaluates the argument expression
  before the call, so whatever that expression does happens where \<open>lazify\<close> is called.
\<close>

type_synonym ('a, 's) Lazy = "('a, 's) eff"

definition lazify :: "'a \<Rightarrow> ('a, 's) Lazy" where
  "lazify val = ret val"

text \<open>
  An array element is a thunk, or \<^verbatim>\<open>undefined\<close>: destructuring an empty array binds
  its first name to \<^verbatim>\<open>undefined\<close>, and calling \<^verbatim>\<open>undefined\<close> throws a TypeError.
\<close>

datatype 'a slot = Undefined | Elem 'a

type_synonym ('a, 's) LazyArray = "(('a, 's) Lazy slot list, 's) Lazy"

definition force :: "('a, 's) Lazy slot \<Rightarrow> ('a, 's) eff" where
  "force l = (case l of Undefined \<Rightarrow> throw TypeError | Elem t \<Rightarrow> t)"

text \<open>
  \<^verbatim>\<open>Array.prototype.map\<close> and \<^verbatim>\<open>Array.prototype.filter\<close> call their callback on
  the elements from left to right; an exception of the callback ends the whole call.
\<close>

fun mapM :: "('a \<Rightarrow> ('b, 's) eff) \<Rightarrow> 'a list \<Rightarrow> ('b list, 's) eff" where
  "mapM f [] = ret []"
| "mapM f (x # xs) = bnd (f x) (\<lambda>y. bnd (mapM f xs) (\<lambda>ys. ret (y # ys)))"

fun filterM :: "('a \<Rightarrow> (bool, 's) eff) \<Rightarrow> 'a list \<Rightarrow> ('a list, 's) eff" where
  "filterM p [] = ret []"
| "filterM p (x # xs) =
     bnd (p x) (\<lambda>keep. bnd (filterM p xs) (\<lambda>ys. ret (if keep then x # ys else ys)))"

text \<open>
  \<^verbatim>\<open>const lazyToGreedy = <T>(arr: T[]): Lazy<Lazy<T>[]> => {\<close>
  \<^verbatim>\<open>    return lazify(arr.map(l => lazify(l)));\<close>
  \<^verbatim>\<open>};\<close>
\<close>

definition lazyToGreedy :: "'a list \<Rightarrow> ('a, 's) LazyArray" where
  "lazyToGreedy arr = lazify (map (\<lambda>l. Elem (lazify l)) arr)"

text \<open>
  Collapsing a lazy array, \<^verbatim>\<open>sorted().map(l => l())\<close>: the outer thunk is forced, then
  every element.
\<close>

definition collapse :: "('a, 's) LazyArray \<Rightarrow> ('a list, 's) eff" where
  "collapse arr = bnd arr (\<lambda>a. mapM force a)"

section \<open>Numbers\<close>

text \<open>
  A JavaScript \<^verbatim>\<open>number\<close> is an IEEE 754 double: a finite value, an infinity or NaN.
  The sort only looks at whether a difference is \<^verbatim>\<open><= 0\<close> or \<^verbatim>\<open>> 0\<close>. Finite values
  are modelled by reals and their difference by the exact one: the rounded difference of
  two finite doubles has the sign of the exact difference (it is zero only for equal
  operands, and an overflow keeps the sign), so both tests come out as in JavaScript.
  Both tests are false on NaN.
\<close>

datatype number = NaN | NegInf | Fin real | PosInf

fun subtract :: "number \<Rightarrow> number \<Rightarrow> number" where
  "subtract NaN _ = NaN"
| "subtract _ NaN = NaN"
| "subtract (Fin a) (Fin b) = Fin (a - b)"
| "subtract (Fin a) PosInf = NegInf"
| "subtract (Fin a) NegInf = PosInf"
| "subtract PosInf PosInf = NaN"
| "subtract PosInf _ = PosInf"
| "subtract NegInf NegInf = NaN"
| "subtract NegInf _ = NegInf"

fun le0 :: "number \<Rightarrow> bool" where
  "le0 NaN = False"
| "le0 NegInf = True"
| "le0 (Fin r) = (r \<le> 0)"
| "le0 PosInf = False"

fun gt0 :: "number \<Rightarrow> bool" where
  "gt0 NaN = False"
| "gt0 NegInf = False"
| "gt0 (Fin r) = (0 < r)"
| "gt0 PosInf = True"

text \<open>
  \<^verbatim>\<open>type Comparable = number | boolean;\<close>
  The operator \<^verbatim>\<open>-\<close> converts a boolean operand to 1 or 0.
\<close>

datatype Comparable = Num number | Bool bool

fun toNumber :: "Comparable \<Rightarrow> number" where
  "toNumber (Num n) = n"
| "toNumber (Bool b) = Fin (if b then 1 else 0)"

definition jsMinus :: "Comparable \<Rightarrow> Comparable \<Rightarrow> number" where
  "jsMinus a b = subtract (toNumber a) (toNumber b)"

section \<open>lazyQuicksort\<close>

text \<open>
  A comparator is called with two element handles and returns a thunk of a number; both
  the call and the forcing of its result are arbitrary code.
\<close>

type_synonym ('a, 's) comparator =
  "('a, 's) Lazy slot \<Rightarrow> ('a, 's) Lazy slot \<Rightarrow> ((number, 's) Lazy, 's) eff"

text \<open>The two filter callbacks, \<^verbatim>\<open>(a) => comparator(a, x)() <= 0\<close> and \<^verbatim>\<open>... > 0\<close>.\<close>

definition keepSmaller ::
  "('a, 's) comparator \<Rightarrow> ('a, 's) Lazy slot \<Rightarrow> ('a, 's) Lazy slot \<Rightarrow> (bool, 's) eff" where
  "keepSmaller comparator x a = bnd (comparator a x) (\<lambda>c. bnd c (\<lambda>n. ret (le0 n)))"

definition keepBigger ::
  "('a, 's) comparator \<Rightarrow> ('a, 's) Lazy slot \<Rightarrow> ('a, 's) Lazy slot \<Rightarrow> (bool, 's) eff" where
  "keepBigger comparator x a = bnd (comparator a x) (\<lambda>c. bnd c (\<lambda>n. ret (gt0 n)))"

text \<open>A comparison, \<^verbatim>\<open>comparator(a, b)()\<close>: the comparator is called and its result forced.\<close>

definition comparison ::
  "('a, 's) comparator \<Rightarrow> ('a, 's) Lazy slot \<Rightarrow> ('a, 's) Lazy slot \<Rightarrow> (number, 's) eff" where
  "comparison comparator a b = bnd (comparator a b) (\<lambda>c. c)"

text \<open>\<^verbatim>\<open>const [x, ...xs] = a\<close>: on an empty array \<open>x\<close> is \<^verbatim>\<open>undefined\<close> and \<open>xs\<close> is empty.\<close>

definition destructure :: "'a slot list \<Rightarrow> 'a slot \<times> 'a slot list" where
  "destructure a = (case a of [] \<Rightarrow> (Undefined, []) | h # t \<Rightarrow> (h, t))"

lemma filterM_length:
  "filterM p xs s = (Inr ys, s') \<Longrightarrow> length ys \<le> length xs"
proof (induction xs arbitrary: s ys s')
  case Nil
  then show ?case by (simp add: ret_def)
next
  case (Cons x xs)
  then show ?case
    by (auto simp: bnd_def ret_def split: prod.splits sum.splits if_splits) fastforce+
qed

text \<open>
  \<^verbatim>\<open>const lazyQuicksort = <T>(arr: LazyArray<T>, comparator: ...): LazyArray<T> => {\<close>
  \<^verbatim>\<open>    if (!arr().length) return arr;\<close>
  \<^verbatim>\<open>    const [x, ...xs] = arr();\<close>
  \<^verbatim>\<open>    const smallerSorted = lazyQuicksort(lazify(xs.filter((a) => comparator(a, x)() <= 0)), comparator);\<close>
  \<^verbatim>\<open>    const biggerSorted = lazyQuicksort(lazify(xs.filter((a) => comparator(a, x)() > 0)), comparator);\<close>
  \<^verbatim>\<open>    return lazify([...smallerSorted(), x, ...biggerSorted()]);\<close>
  \<^verbatim>\<open>};\<close>
  The input thunk is called twice, and the second call need not return what the first
  did. The continuations of the steps before a recursive call take the state as an
  explicit argument, so that the termination proof sees what those steps returned.
\<close>

function lazyQuicksort ::
  "('a, 's) LazyArray \<Rightarrow> ('a, 's) comparator \<Rightarrow> (('a, 's) LazyArray, 's) eff" where
  "lazyQuicksort arr comparator s =
     bnd arr (\<lambda>a0 s0.
       if length a0 = 0 then ret arr s0
       else bnd arr (\<lambda>a1 s1.
         case destructure a1 of (x, xs) \<Rightarrow>
           bnd (filterM (keepSmaller comparator x) xs) (\<lambda>smaller s2.
           bnd (lazyQuicksort (lazify smaller) comparator) (\<lambda>smallerSorted s3.
           bnd (filterM (keepBigger comparator x) xs) (\<lambda>bigger s4.
           bnd (lazyQuicksort (lazify bigger) comparator) (\<lambda>biggerSorted.
           bnd smallerSorted (\<lambda>ss.
           bnd biggerSorted (\<lambda>bs.
           ret (lazify (ss @ [x] @ bs))))) s4) s3) s2) s1) s0) s"
  by pat_completeness auto

text \<open>
  The measure of a call: the length of the array its second forcing of the input returns
  (plus one), and zero for a call that stops at the emptiness test.
\<close>

definition pending :: "('a, 's) LazyArray \<times> ('a, 's) comparator \<times> 's \<Rightarrow> nat" where
  "pending = (\<lambda>(arr, comparator, s).
     case arr s of
       (Inl e, s0) \<Rightarrow> 0
     | (Inr a0, s0) \<Rightarrow>
         if a0 = [] then 0
         else (case arr s0 of (Inl e, s1) \<Rightarrow> 1 | (Inr a1, s1) \<Rightarrow> Suc (length a1)))"

lemma pending_lazify: "pending (lazify a, c, s) = (if a = [] then 0 else Suc (length a))"
  by (simp add: pending_def lazify_def ret_def)

lemma destructure_length:
  "destructure a = (x, xs) \<Longrightarrow> length xs = length a - 1"
  by (auto simp: destructure_def split: list.splits)

lemma pending_decreases:
  assumes "arr s = (Inr a0, s0)" and "length a0 \<noteq> 0" and "arr s0 = (Inr a1, s1)"
    and "(x, xs) = destructure a1" and "filterM p xs s2 = (Inr pool, s3)"
  shows "pending (lazify pool, comparator, s4) < pending (arr, comparator, s)"
proof -
  have "length pool \<le> length xs" using assms(5) by (rule filterM_length)
  moreover have "length xs = length a1 - 1"
    using assms(4) [symmetric] by (rule destructure_length)
  moreover have "pending (arr, comparator, s) = Suc (length a1)"
    using assms(1-3) by (simp add: pending_def)
  ultimately show ?thesis by (cases pool) (simp_all add: pending_lazify)
qed

termination lazyQuicksort
proof (relation "measure pending")
  show "wf (measure pending)" by simp
qed (simp_all add: pending_decreases)

declare lazyQuicksort.simps [simp del]

text \<open>The comparator of the example, \<^verbatim>\<open>(a, b) => () => a() - b()\<close>.\<close>

definition subtractionComparator :: "(Comparable, 's) comparator" where
  "subtractionComparator a b =
     ret (bnd (force a) (\<lambda>va. bnd (force b) (\<lambda>vb. ret (jsMinus va vb))))"

text \<open>
  The example program: \<^verbatim>\<open>lazyQuicksort(lazyToGreedy(xs), (a, b) => () => a() - b())\<close>,
  collapsed.
\<close>

definition sortCollapsed :: "Comparable list \<Rightarrow> (Comparable list, 's) eff" where
  "sortCollapsed xs = bnd (lazyQuicksort (lazyToGreedy xs) subtractionComparator) collapse"

text \<open>
  The sequences on which every difference the sort computes is a number: no NaN, and
  neither infinity more than once (\<^verbatim>\<open>Infinity - Infinity\<close> is NaN).
\<close>

definition orderable :: "Comparable list \<Rightarrow> bool" where
  "orderable xs \<longleftrightarrow>
     NaN \<notin> set (map toNumber xs) \<and>
     count_list (map toNumber xs) PosInf \<le> 1 \<and>
     count_list (map toNumber xs) NegInf \<le> 1"

section \<open>The combinators\<close>

text \<open>
  \<^verbatim>\<open>const mapLazy = <T, U>(val: Lazy<T>, mapper: (value: T) => U): Lazy<U> => lazify(mapper(val()));\<close>
  \<^verbatim>\<open>const bindLazy = <T, U>(val: Lazy<T>, binder: (value: T) => Lazy<U>): Lazy<U> => binder(val());\<close>
  \<^verbatim>\<open>const applyLazy = <T, U>(val: Lazy<T>, func: Lazy<(v: T) => U>): Lazy<U> => lazify(func()(val()));\<close>
  A mapper or binder is a function of the program: calling it is a call like any other.
  In \<^verbatim>\<open>func()(val())\<close> the callee \<^verbatim>\<open>func()\<close> is evaluated before the argument.
\<close>

definition mapLazy :: "('a, 's) Lazy \<Rightarrow> ('a \<Rightarrow> ('b, 's) eff) \<Rightarrow> (('b, 's) Lazy, 's) eff" where
  "mapLazy val mapper = bnd val (\<lambda>v. bnd (mapper v) (\<lambda>u. ret (lazify u)))"

definition bindLazy ::
  "('a, 's) Lazy \<Rightarrow> ('a \<Rightarrow> (('b, 's) Lazy, 's) eff) \<Rightarrow> (('b, 's) Lazy, 's) eff" where
  "bindLazy val binder = bnd val (\<lambda>v. binder v)"

definition applyLazy ::
  "('a, 's) Lazy \<Rightarrow> ('a \<Rightarrow> ('b, 's) eff, 's) Lazy \<Rightarrow> (('b, 's) Lazy, 's) eff" where
  "applyLazy val func = bnd func (\<lambda>f. bnd val (\<lambda>v. bnd (f v) (\<lambda>u. ret (lazify u))))"

text \<open>
  The \<open>mapLazy\<close> of the third listing works on a lazy array and has the name of the
  one above; it is \<open>mapLazy_array\<close> here.
  \<^verbatim>\<open>const mapLazy = <T, U>(arr: LazyArray<T>, mapper: (val: T) => U): LazyArray<U> => {\<close>
  \<^verbatim>\<open>    return lazify(arr().map(l => lazify(mapper(l()))));\<close>
  \<^verbatim>\<open>};\<close>
\<close>

definition mapLazy_array ::
  "('a, 's) LazyArray \<Rightarrow> ('a \<Rightarrow> ('b, 's) eff) \<Rightarrow> (('b, 's) LazyArray, 's) eff" where
  "mapLazy_array arr mapper =
     bnd arr (\<lambda>a.
     bnd (mapM (\<lambda>l. bnd (force l) (\<lambda>v. bnd (mapper v) (\<lambda>u. ret (Elem (lazify u))))) a) (\<lambda>ys.
     ret (lazify ys)))"

section \<open>Observing calls\<close>

text \<open>
  To count how often a thunk is forced or a comparator is called, the state carries three
  counters (and whatever else the caller's code keeps, in the record's extension). A
  counted thunk adds one to its counter each time it is forced, before it does anything
  else; a counted comparator adds one each time it is called.
\<close>

record probe =
  outerForces :: nat
  elementForces :: nat
  comparatorCalls :: nat

definition countOuter :: "('a, 'z probe_scheme) eff \<Rightarrow> ('a, 'z probe_scheme) eff" where
  "countOuter m = (\<lambda>\<sigma>. m (\<sigma>\<lparr>outerForces := Suc (outerForces \<sigma>)\<rparr>))"

definition countElement :: "('a, 'z probe_scheme) eff \<Rightarrow> ('a, 'z probe_scheme) eff" where
  "countElement m = (\<lambda>\<sigma>. m (\<sigma>\<lparr>elementForces := Suc (elementForces \<sigma>)\<rparr>))"

definition countElements ::
  "('a, 'z probe_scheme) LazyArray \<Rightarrow> ('a, 'z probe_scheme) LazyArray" where
  "countElements arr = bnd arr (\<lambda>a. ret (map (map_slot countElement) a))"

definition countCalls ::
  "('a, 'z probe_scheme) comparator \<Rightarrow> ('a, 'z probe_scheme) comparator" where
  "countCalls comparator =
     (\<lambda>a b \<sigma>. comparator a b (\<sigma>\<lparr>comparatorCalls := Suc (comparatorCalls \<sigma>)\<rparr>))"

text \<open>The state before anything was counted (and with nothing else in it).\<close>

definition probe0 :: probe where
  "probe0 = \<lparr>outerForces = 0, elementForces = 0, comparatorCalls = 0\<rparr>"

text \<open>Code that leaves an observation of the state as it found it, whatever it returns.\<close>

definition keeps :: "('s \<Rightarrow> 'k) \<Rightarrow> ('a, 's) eff \<Rightarrow> bool" where
  "keeps obs m \<longleftrightarrow> (\<forall>s. obs (snd (m s)) = obs s)"

text \<open>A function that returns a thunk: neither the call nor the thunk changes it.\<close>

definition keepsBoth :: "('s \<Rightarrow> 'k) \<Rightarrow> (('a, 's) eff, 's) eff \<Rightarrow> bool" where
  "keepsBoth obs m \<longleftrightarrow>
     keeps obs m \<and> (\<forall>s t s'. m s = (Inr t, s') \<longrightarrow> keeps obs t)"

text \<open>Code that never throws.\<close>

definition succeeds :: "('a, 's) eff \<Rightarrow> bool" where
  "succeeds m \<longleftrightarrow> (\<forall>s. \<exists>v s'. m s = (Inr v, s'))"

definition succeedsBoth :: "(('a, 's) eff, 's) eff \<Rightarrow> bool" where
  "succeedsBoth m \<longleftrightarrow>
     succeeds m \<and> (\<forall>s t s'. m s = (Inr t, s') \<longrightarrow> succeeds t)"

text \<open>Forcing a thunk \<open>k\<close> times in a row.\<close>

fun forceTimes :: "nat \<Rightarrow> ('a, 's) Lazy \<Rightarrow> (unit, 's) eff" where
  "forceTimes 0 t = ret ()"
| "forceTimes (Suc k) t = bnd t (\<lambda>_. forceTimes k t)"

text \<open>
  To see which elements are forced and in which order, the state carries a journal: the
  element at position \<open>i\<close> of a journalled array writes \<open>i\<close> at the end of the journal
  each time it is forced, before it does anything else.
\<close>

record journal =
  forcedElements :: "nat list"

definition logElement :: "nat \<Rightarrow> ('a, 'z journal_scheme) eff \<Rightarrow> ('a, 'z journal_scheme) eff" where
  "logElement i t = (\<lambda>\<sigma>. t (\<sigma>\<lparr>forcedElements := forcedElements \<sigma> @ [i]\<rparr>))"

definition logElements ::
  "('a, 'z journal_scheme) Lazy list \<Rightarrow> ('a, 'z journal_scheme) Lazy slot list" where
  "logElements ts = map (\<lambda>(i, t). Elem (logElement i t)) (enumerate 0 ts)"

definition journal0 :: journal where
  "journal0 = \<lparr>forcedElements = []\<rparr>"

section \<open>Results\<close>

subsection \<open>Basic facts of the effect operations\<close>

lemma ret_apply: "ret v s = (Inr v, s)"
  by (simp add: ret_def)

lemma throw_apply: "throw e s = (Inl e, s)"
  by (simp add: throw_def)

lemma lazify_apply: "lazify v s = (Inr v, s)"
  by (simp add: lazify_def ret_def)

lemma bnd_ret: "bnd (ret v) f = f v"
  by (simp add: bnd_def ret_def)

lemma bnd_lazify: "bnd (lazify v) f = f v"
  by (simp add: lazify_def bnd_ret)

lemma force_Elem_lazify: "force (Elem (lazify v)) s = (Inr v, s)"
  by (simp add: force_def lazify_apply)

subsection \<open>Round trip\<close>

lemma mapM_force_lazify:
  "mapM force (map (\<lambda>l. Elem (lazify l)) xs) s = (Inr xs, s)"
  by (induction xs) (simp_all add: ret_apply bnd_def force_Elem_lazify)

text \<open>
  C6. Converting a concrete sequence with \<open>lazyToGreedy\<close> and collapsing it again (forcing
  the outer layer, then every element) gives the sequence back, element for element and
  in the same order; the state is left as it was.
\<close>

theorem collapse_lazyToGreedy: "collapse (lazyToGreedy xs) s = (Inr xs, s)"
  by (simp add: collapse_def lazyToGreedy_def bnd_lazify mapM_force_lazify)

lemma collapse_values: "collapse (lazyToGreedy xs) = ret xs"
  by (rule ext) (simp add: collapse_def lazyToGreedy_def bnd_lazify mapM_force_lazify ret_apply)

subsection \<open>Unfolding lazyQuicksort on an array that is already there\<close>

lemma lazyQuicksort_empty:
  "arr s = (Inr [], s0) \<Longrightarrow> lazyQuicksort arr comparator s = (Inr arr, s0)"
  by (simp add: lazyQuicksort.simps bnd_def ret_def)

lemma lazyQuicksort_Nil: "lazyQuicksort (lazify []) comparator s = (Inr (lazify []), s)"
  by (rule lazyQuicksort_empty) (rule lazify_apply)

lemma lazyQuicksort_Cons:
  "lazyQuicksort (lazify (x # xs)) comparator =
     bnd (filterM (keepSmaller comparator x) xs) (\<lambda>smaller.
     bnd (lazyQuicksort (lazify smaller) comparator) (\<lambda>smallerSorted.
     bnd (filterM (keepBigger comparator x) xs) (\<lambda>bigger.
     bnd (lazyQuicksort (lazify bigger) comparator) (\<lambda>biggerSorted.
     bnd smallerSorted (\<lambda>ss.
     bnd biggerSorted (\<lambda>bs.
     ret (lazify (ss @ [x] @ bs))))))))"
  by (rule ext, subst lazyQuicksort.simps) (simp add: bnd_lazify destructure_def)

lemma lazyQuicksort_level:
  "lazyQuicksort (lazify (if a1 = [] then [Undefined] else a1)) comparator =
     (case destructure a1 of (x, xs) \<Rightarrow>
        bnd (filterM (keepSmaller comparator x) xs) (\<lambda>smaller.
        bnd (lazyQuicksort (lazify smaller) comparator) (\<lambda>smallerSorted.
        bnd (filterM (keepBigger comparator x) xs) (\<lambda>bigger.
        bnd (lazyQuicksort (lazify bigger) comparator) (\<lambda>biggerSorted.
        bnd smallerSorted (\<lambda>ss.
        bnd biggerSorted (\<lambda>bs.
        ret (lazify (ss @ [x] @ bs)))))))))"
  by (cases a1) (simp_all add: lazyQuicksort_Cons destructure_def)

lemma lazyQuicksort_unfold:
  "lazyQuicksort arr comparator s =
     (case arr s of
        (Inl e, s0) \<Rightarrow> (Inl e, s0)
      | (Inr a0, s0) \<Rightarrow>
          if a0 = [] then (Inr arr, s0)
          else (case arr s0 of
                  (Inl e, s1) \<Rightarrow> (Inl e, s1)
                | (Inr a1, s1) \<Rightarrow>
                    lazyQuicksort (lazify (if a1 = [] then [Undefined] else a1)) comparator s1))"
  unfolding lazyQuicksort_level
  by (subst lazyQuicksort.simps)
     (simp add: bnd_def ret_def split: prod.splits sum.splits)

subsection \<open>Sorting with the subtraction comparator\<close>

lemma keepSmaller_subtraction:
  "keepSmaller subtractionComparator (Elem (lazify x)) (Elem (lazify a)) = ret (le0 (jsMinus a x))"
  by (simp add: keepSmaller_def subtractionComparator_def force_def lazify_def bnd_ret)

lemma keepBigger_subtraction:
  "keepBigger subtractionComparator (Elem (lazify x)) (Elem (lazify a)) = ret (gt0 (jsMinus a x))"
  by (simp add: keepBigger_def subtractionComparator_def force_def lazify_def bnd_ret)

lemma filterM_pure:
  assumes "\<And>a. a \<in> set xs \<Longrightarrow> p (f a) = ret (q a)"
  shows "filterM p (map f xs) = ret (map f (filter q xs))"
  using assms by (induction xs) (simp_all add: bnd_ret)

lemma le0_gt0: "n \<noteq> NaN \<Longrightarrow> gt0 n \<longleftrightarrow> \<not> le0 n"
  by (cases n) auto

lemma gt0_swap: "gt0 (subtract b x) \<Longrightarrow> le0 (subtract x b)"
  by (cases b; cases x) auto

lemma le0_gt0_trans: "le0 (subtract a x) \<Longrightarrow> gt0 (subtract b x) \<Longrightarrow> le0 (subtract a b)"
  by (cases a; cases x; cases b) auto

lemma count_list_filter_le: "count_list (map f (filter p xs)) v \<le> count_list (map f xs) v"
  by (induction xs) auto

lemma orderable_filter: "orderable (x # xs) \<Longrightarrow> orderable (filter p xs)"
  unfolding orderable_def
  using count_list_filter_le [of toNumber p xs PosInf] count_list_filter_le [of toNumber p xs NegInf]
  by (auto split: if_splits)

lemma count_list_pos: "v \<in> set xs \<Longrightarrow> 0 < count_list xs v"
  by (induction xs) auto

lemma orderable_defined:
  assumes "orderable (x # xs)" and "a \<in> set xs"
  shows "jsMinus a x \<noteq> NaN"
proof -
  have m: "toNumber a \<in> set (map toNumber xs)" using assms(2) by simp
  have n: "toNumber a \<noteq> NaN" "toNumber x \<noteq> NaN"
    using assms(1) m by (auto simp: orderable_def)
  have "\<not> (toNumber a = PosInf \<and> toNumber x = PosInf)"
    using assms(1) count_list_pos [OF m] by (auto simp: orderable_def)
  moreover have "\<not> (toNumber a = NegInf \<and> toNumber x = NegInf)"
    using assms(1) count_list_pos [OF m] by (auto simp: orderable_def)
  ultimately show ?thesis
    using n unfolding jsMinus_def by (cases "toNumber a"; cases "toNumber x") auto
qed

lemma sorted_wrt_pivot:
  assumes "sorted_wrt (\<lambda>a b. le0 (jsMinus a b)) ss" and "sorted_wrt (\<lambda>a b. le0 (jsMinus a b)) bs"
    and "\<And>a. a \<in> set ss \<Longrightarrow> le0 (jsMinus a x)" and "\<And>b. b \<in> set bs \<Longrightarrow> gt0 (jsMinus b x)"
  shows "sorted_wrt (\<lambda>a b. le0 (jsMinus a b)) (ss @ [x] @ bs)"
  using assms
  by (auto simp: sorted_wrt_append jsMinus_def intro: gt0_swap le0_gt0_trans)

lemma mset_partition:
  assumes "\<And>a. a \<in> set xs \<Longrightarrow> jsMinus a x \<noteq> NaN"
  shows "mset (filter (\<lambda>a. le0 (jsMinus a x)) xs) + mset (filter (\<lambda>a. gt0 (jsMinus a x)) xs) = mset xs"
proof -
  have "filter (\<lambda>a. gt0 (jsMinus a x)) xs = filter (\<lambda>a. \<not> le0 (jsMinus a x)) xs"
    by (rule filter_cong) (simp_all add: assms le0_gt0)
  then show ?thesis by simp
qed

lemma lazyQuicksort_values:
  "\<exists>ys. (lazyQuicksort (lazyToGreedy xs) subtractionComparator
           :: ((Comparable, 's) LazyArray, 's) eff) = ret (lazyToGreedy ys) \<and>
        sorted_wrt (\<lambda>a b. le0 (jsMinus a b)) ys \<and> set ys \<subseteq> set xs \<and>
        (orderable xs \<longrightarrow> mset ys = mset xs)"
proof (induction "length xs" arbitrary: xs rule: less_induct)
  case less
  let ?sort = "\<lambda>vs. (lazyQuicksort (lazyToGreedy vs) subtractionComparator
                  :: ((Comparable, 's) LazyArray, 's) eff)"
  show ?case
  proof (cases xs)
    case Nil
    have "?sort [] = ret (lazyToGreedy [])"
      by (rule ext) (simp add: lazyToGreedy_def lazyQuicksort_Nil ret_apply)
    then show ?thesis using Nil by auto
  next
    case (Cons x rest)
    let ?E = "\<lambda>l. Elem (lazify l :: (Comparable, 's) Lazy)"
    let ?small = "filter (\<lambda>a. le0 (jsMinus a x)) rest"
    let ?big = "filter (\<lambda>a. gt0 (jsMinus a x)) rest"
    have f1: "filterM (keepSmaller subtractionComparator (?E x)) (map ?E rest) = ret (map ?E ?small)"
      by (rule filterM_pure) (rule keepSmaller_subtraction)
    have f2: "filterM (keepBigger subtractionComparator (?E x)) (map ?E rest) = ret (map ?E ?big)"
      by (rule filterM_pure) (rule keepBigger_subtraction)
    have "length ?small < length xs" using Cons by (simp add: le_imp_less_Suc)
    from less [OF this] obtain ss where
      ss: "?sort ?small = ret (lazyToGreedy ss)"
        "sorted_wrt (\<lambda>a b. le0 (jsMinus a b)) ss" "set ss \<subseteq> set ?small"
        "orderable ?small \<longrightarrow> mset ss = mset ?small"
      by blast
    have "length ?big < length xs" using Cons by (simp add: le_imp_less_Suc)
    from less [OF this] obtain bs where
      bs: "?sort ?big = ret (lazyToGreedy bs)"
        "sorted_wrt (\<lambda>a b. le0 (jsMinus a b)) bs" "set bs \<subseteq> set ?big"
        "orderable ?big \<longrightarrow> mset bs = mset ?big"
      by blast
    have run: "?sort xs = ret (lazyToGreedy (ss @ [x] @ bs))"
      unfolding Cons lazyToGreedy_def list.map lazyQuicksort_Cons f1 bnd_ret
        ss(1) [unfolded lazyToGreedy_def] f2 bs(1) [unfolded lazyToGreedy_def] bnd_lazify
      by simp
    have sorted: "sorted_wrt (\<lambda>a b. le0 (jsMinus a b)) (ss @ [x] @ bs)"
      using ss(2,3) bs(2,3) by (intro sorted_wrt_pivot) auto
    have sub: "set (ss @ [x] @ bs) \<subseteq> set xs"
      using ss(3) bs(3) Cons by auto
    have perm: "mset (ss @ [x] @ bs) = mset xs" if o: "orderable xs"
    proof -
      have "orderable ?small" "orderable ?big"
        using o unfolding Cons by (rule orderable_filter)+
      then have "mset ss = mset ?small" "mset bs = mset ?big" using ss(4) bs(4) by auto
      moreover have "mset ?small + mset ?big = mset rest"
        by (rule mset_partition) (rule orderable_defined [OF o [unfolded Cons]])
      ultimately show ?thesis unfolding Cons by (simp add: add.commute add.left_commute)
    qed
    show ?thesis using run sorted sub perm by blast
  qed
qed

text \<open>
  On a sequence \<open>xs\<close> of numbers and booleans that holds no NaN and neither infinity
  more than once, every difference the sort computes is a number, and the example
  program returns a permutation of \<open>xs\<close> in which no element is followed, at any
  distance, by one the comparator ranks before it.
\<close>

lemma sortCollapsed_sorted_permutation:
  fixes s :: 's
  assumes "orderable xs"
  shows "\<exists>ys. sortCollapsed xs s = (Inr ys, s) \<and> mset ys = mset xs \<and>
              sorted_wrt (\<lambda>a b. le0 (jsMinus a b)) ys"
proof -
  obtain ys where
    ys: "(lazyQuicksort (lazyToGreedy xs) subtractionComparator
           :: ((Comparable, 's) LazyArray, 's) eff) = ret (lazyToGreedy ys)"
      "sorted_wrt (\<lambda>a b. le0 (jsMinus a b)) ys" "mset ys = mset xs"
    using lazyQuicksort_values [of xs] assms by blast
  have "sortCollapsed xs s = (Inr ys, s)"
    by (simp add: sortCollapsed_def ys(1) bnd_ret collapse_values ret_apply)
  then show ?thesis using ys(2,3) by blast
qed

lemma sortCollapsed_sorted_permutation_example:
  "orderable [Num (Fin 2), Bool True, Num PosInf, Num (Fin 1), Bool False] \<and>
   (\<exists>ys. sortCollapsed [Num (Fin 2), Bool True, Num PosInf, Num (Fin 1), Bool False] () = (Inr ys, ()) \<and>
      mset ys = mset [Num (Fin 2), Bool True, Num PosInf, Num (Fin 1), Bool False] \<and>
      sorted_wrt (\<lambda>a b. le0 (jsMinus a b)) ys)"
proof -
  have o: "orderable [Num (Fin 2), Bool True, Num PosInf, Num (Fin 1), Bool False]"
    by (simp add: orderable_def)
  show ?thesis
    using o sortCollapsed_sorted_permutation [OF o, of "()"] by simp
qed

text \<open>
  C1. For every sequence of numbers or booleans, the sort with the subtraction
  comparator, collapsed, is to return a permutation of the sequence, sorted by the
  comparator. The code does not: a difference that is NaN is neither \<^verbatim>\<open><= 0\<close> nor
  \<^verbatim>\<open>> 0\<close>, so the element is in neither pool and is lost. \<^verbatim>\<open>[1, NaN]\<close> comes back as
  \<^verbatim>\<open>[1]\<close>, and \<^verbatim>\<open>[Infinity, Infinity]\<close> as \<^verbatim>\<open>[Infinity]\<close>.
\<close>

theorem sortCollapsed_loses_elements:
  "sortCollapsed [Num (Fin 1), Num NaN] () = (Inr [Num (Fin 1)], ()) \<and>
   mset [Num (Fin 1)] \<noteq> mset [Num (Fin 1), Num NaN] \<and>
   sortCollapsed [Num PosInf, Num PosInf] () = (Inr [Num PosInf], ()) \<and>
   mset [Num PosInf] \<noteq> mset [Num PosInf, Num PosInf]"
  by (simp add: sortCollapsed_def lazyToGreedy_def lazyQuicksort_Cons lazyQuicksort_Nil
      keepSmaller_subtraction keepBigger_subtraction bnd_ret bnd_lazify jsMinus_def
      collapse_def ret_apply force_def lazify_apply bnd_def)

subsection \<open>Termination\<close>

lemma lazyQuicksort_rel_pending:
  "lazyQuicksort_rel callee caller \<Longrightarrow> pending callee < pending caller"
  by (erule lazyQuicksort_rel.cases) (simp_all add: pending_decreases)

lemma lazyQuicksort_rel_shorter:
  assumes "lazyQuicksort_rel (t, c', s') (lazify a, c, s)"
  shows "\<exists>pool. t = lazify pool \<and> length pool < length a"
  using assms
proof (cases rule: lazyQuicksort_rel.cases)
  case (1 v s1 va s1a x y vb)
  then have "va = a" "a \<noteq> []" by (auto simp: lazify_apply)
  moreover have "length vb \<le> length y" using 1 by (auto dest: filterM_length)
  moreover have "length y = length va - 1" using 1(6) [symmetric] by (rule destructure_length)
  ultimately show ?thesis using 1(1) by (cases a) auto
next
  case (2 v s1 va s1a x y vb s1b vc s1c vd)
  then have "va = a" "a \<noteq> []" by (auto simp: lazify_apply)
  moreover have "length vd \<le> length y" using 2 by (auto dest: filterM_length)
  moreover have "length y = length va - 1" using 2(6) [symmetric] by (rule destructure_length)
  ultimately show ?thesis using 2(1) by (cases a) auto
qed

text \<open>
  C8. lazyQuicksort terminates on every input, for every comparator: every argument
  triple is in the accessible part of the relation between a recursive call and its
  caller, on which the measure \<open>pending\<close> decreases. When the caller's array is already
  there (as in every recursive call, whose argument is \<open>lazify\<close> of a filtered pool, and
  for an array made by \<open>lazyToGreedy\<close>), the array of each recursive call is strictly
  shorter than the caller's.
\<close>

theorem lazyQuicksort_terminates:
  fixes arr :: "('a, 's) LazyArray"
  shows "lazyQuicksort_dom (arr, comparator, s) \<and>
   (\<forall>callee. lazyQuicksort_rel callee (arr, comparator, s) \<longrightarrow>
      pending callee < pending (arr, comparator, s)) \<and>
   (\<forall>a t c' s'. arr = lazify a \<longrightarrow> lazyQuicksort_rel (t, c', s') (arr, comparator, s) \<longrightarrow>
      (\<exists>pool. t = lazify pool \<and> length pool < length a))"
proof -
  have "wfp (lazyQuicksort_rel :: (('a, 's) LazyArray \<times> ('a, 's) comparator \<times> 's) \<Rightarrow> _)"
    by (rule wfp_if_convertible_to_nat [where f = pending]) (rule lazyQuicksort_rel_pending)
  then have "lazyQuicksort_dom (arr, comparator, s)" by (rule accp_wfpD)
  then show ?thesis
    by (auto simp: lazyQuicksort_rel_pending dest: lazyQuicksort_rel_shorter)
qed

theorem lazyQuicksort_terminates_witness:
  "lazyQuicksort_rel
     (lazify [], subtractionComparator, ())
     (lazify [Elem (lazify (Num (Fin 5)))], subtractionComparator, ()) \<and>
   lazyQuicksort_dom (lazify [Elem (lazify (Num (Fin 5)))], subtractionComparator, ()) \<and>
   pending (lazify [], subtractionComparator, ())
     < pending (lazify [Elem (lazify (Num (Fin 5)))], subtractionComparator, ()) \<and>
   (\<exists>pool. (lazify [] :: (Comparable, unit) LazyArray) = lazify pool \<and>
      length pool < length [Elem (lazify (Num (Fin 5)) :: (Comparable, unit) Lazy)])"
proof -
  let ?arr = "lazify [Elem (lazify (Num (Fin 5)))] :: (Comparable, unit) LazyArray"
  let ?x = "Elem (lazify (Num (Fin 5))) :: (Comparable, unit) Lazy slot"
  have p1: "?arr () = (Inr [?x], ())" by (rule lazify_apply)
  have p2: "length [?x] \<noteq> 0" by simp
  have p3: "(?x, []) = destructure [?x]" by (simp add: destructure_def)
  have p4: "filterM (keepSmaller subtractionComparator ?x) [] () = (Inr [], ())"
    by (simp add: ret_apply)
  have r: "lazyQuicksort_rel (lazify [], subtractionComparator, ()) (?arr, subtractionComparator, ())"
    by (rule lazyQuicksort_rel.intros(1) [where arr = ?arr and s = "()", OF p1 p2 p1 p3 p4])
  show ?thesis
    using r lazyQuicksort_terminates [of ?arr subtractionComparator "()"] by blast
qed

subsection \<open>The empty and the one-element array\<close>

lemma lazyQuicksort_single:
  "lazyQuicksort (lazify [x]) comparator = ret (lazify [x])"
  by (simp add: lazyQuicksort_Cons bnd_ret lazyQuicksort_Nil [THEN ext, folded ret_def] bnd_lazify)

text \<open>
  C7. When forcing the input returns the empty array, lazyQuicksort returns the input
  thunk itself, and the state is the one that single forcing left: no comparator was
  called. Sorting \<open>lazyToGreedy []\<close> and collapsing gives \<open>[]\<close>; sorting
  \<open>lazyToGreedy [v]\<close> and collapsing gives \<open>[v]\<close>; in both the state, and with it the
  count of comparator calls, is unchanged, whatever the comparator is.
\<close>

theorem lazyQuicksort_trivial_inputs:
  fixes comparator :: "('a, 'z probe_scheme) comparator"
  shows
    "(arr \<sigma> = (Inr [], \<sigma>0) \<longrightarrow> lazyQuicksort arr (countCalls comparator) \<sigma> = (Inr arr, \<sigma>0)) \<and>
     bnd (lazyQuicksort (lazyToGreedy []) (countCalls comparator)) collapse \<sigma> = (Inr [], \<sigma>) \<and>
     bnd (lazyQuicksort (lazyToGreedy [v]) (countCalls comparator)) collapse \<sigma> = (Inr [v], \<sigma>) \<and>
     comparatorCalls (snd (lazyQuicksort (lazyToGreedy [v]) (countCalls comparator) \<sigma>))
       = comparatorCalls \<sigma>"
proof -
  have e: "lazyQuicksort (lazyToGreedy []) (countCalls comparator) = ret (lazyToGreedy [])"
    by (rule ext) (simp add: lazyToGreedy_def lazyQuicksort_Nil ret_apply)
  have s: "lazyQuicksort (lazyToGreedy [v]) (countCalls comparator) = ret (lazyToGreedy [v])"
    by (simp add: lazyToGreedy_def lazyQuicksort_single)
  show ?thesis
    by (simp add: lazyQuicksort_empty e s bnd_ret collapse_values ret_apply)
qed

theorem lazyQuicksort_trivial_inputs_witness:
  "(lazyToGreedy [] :: (Comparable, probe) LazyArray) probe0 = (Inr [], probe0) \<and>
   lazyQuicksort (lazyToGreedy []) (countCalls subtractionComparator) probe0
     = (Inr (lazyToGreedy []), probe0) \<and>
   bnd (lazyQuicksort (lazyToGreedy []) (countCalls subtractionComparator)) collapse probe0
     = (Inr [], probe0) \<and>
   bnd (lazyQuicksort (lazyToGreedy [Num (Fin 5)]) (countCalls subtractionComparator)) collapse probe0
     = (Inr [Num (Fin 5)], probe0) \<and>
   comparatorCalls (snd (lazyQuicksort (lazyToGreedy [Num (Fin 5)])
     (countCalls subtractionComparator) probe0)) = 0"
proof -
  have a: "(lazyToGreedy [] :: (Comparable, probe) LazyArray) probe0 = (Inr [], probe0)"
    by (simp add: lazyToGreedy_def lazify_apply)
  have z: "comparatorCalls probe0 = 0" by (simp add: probe0_def)
  show ?thesis
    using a z lazyQuicksort_trivial_inputs
      [of "lazyToGreedy []" probe0 probe0 subtractionComparator "Num (Fin 5)"]
    by simp
qed

subsection \<open>The combinators force at the call\<close>

text \<open>
  C3 (as amended). \<open>mapLazy\<close> forces its deferred value and applies the mapper when it is
  called. If the forcing fails, or the mapper fails on the forced value, the call
  \<open>mapLazy\<close> itself fails, with that exception. If both succeed, the call returns, in the
  state the mapper left, the deferred value that holds the mapper's result; and every call
  that returns has come about this way. Forcing the returned deferred value yields that
  result, never fails and changes nothing.
\<close>

theorem mapLazy_eager:
  "(val s = (Inl e, s1) \<longrightarrow> mapLazy val mapper s = (Inl e, s1)) \<and>
   (val s = (Inr v, s1) \<and> mapper v s1 = (Inl e, s2) \<longrightarrow> mapLazy val mapper s = (Inl e, s2)) \<and>
   (val s = (Inr v, s1) \<and> mapper v s1 = (Inr u, s2) \<longrightarrow>
      mapLazy val mapper s = (Inr (lazify u), s2)) \<and>
   (mapLazy val mapper s = (Inr t, s') \<longrightarrow>
      (\<exists>v s1 u. val s = (Inr v, s1) \<and> mapper v s1 = (Inr u, s') \<and> t = lazify u \<and>
         (\<forall>s''. t s'' = (Inr u, s''))))"
  by (auto simp: mapLazy_def bnd_def ret_def lazify_def split: prod.splits sum.splits)

theorem mapLazy_eager_witness:
  "lazify (Thrown ''late'') () = (Inr (Thrown ''late''), ()) \<and>
   throw (Thrown ''late'') () = (Inl (Thrown ''late'') :: exn + nat, ()) \<and>
   mapLazy (lazify (Thrown ''late'')) (throw :: exn \<Rightarrow> (nat, unit) eff) ()
     = (Inl (Thrown ''late''), ()) \<and>
   lazify (5 :: nat) () = (Inr 5, ()) \<and>
   ret (5 :: nat) () = (Inr (5 :: nat), ()) \<and>
   mapLazy (lazify (5 :: nat)) (ret :: nat \<Rightarrow> (nat, unit) eff) () = (Inr (lazify 5), ())"
proof -
  have a: "lazify (Thrown ''late'') () = (Inr (Thrown ''late''), ())" by (rule lazify_apply)
  have b: "throw (Thrown ''late'') () = (Inl (Thrown ''late'') :: exn + nat, ())"
    by (rule throw_apply)
  have c: "lazify (5 :: nat) () = (Inr 5, ())" by (rule lazify_apply)
  have d: "ret (5 :: nat) () = (Inr (5 :: nat), ())" by (rule ret_apply)
  show ?thesis
    using a b c d
      mapLazy_eager [where val = "lazify (Thrown ''late'')" and s = "()" and v = "Thrown ''late''"
        and ?s1.0 = "()" and mapper = "throw :: exn \<Rightarrow> (nat, unit) eff" and e = "Thrown ''late''"
        and ?s2.0 = "()"]
      mapLazy_eager [where val = "lazify (5 :: nat)" and s = "()" and v = 5 and ?s1.0 = "()"
        and mapper = "ret :: nat \<Rightarrow> (nat, unit) eff" and u = 5 and ?s2.0 = "()"]
    by blast
qed

text \<open>
  C3 as stated fails: with a mapper that throws its argument, the call of \<open>mapLazy\<close>
  returns no deferred value, it throws.
\<close>

theorem mapLazy_counterexample:
  "mapLazy (lazify (Thrown ''mapper'')) (throw :: exn \<Rightarrow> (nat, unit) eff) ()
     = (Inl (Thrown ''mapper''), ())"
  by (simp add: mapLazy_def bnd_lazify bnd_def throw_apply lazify_apply)

text \<open>
  C2 (as amended). \<open>applyLazy\<close> forces the deferred function, then the deferred value,
  and applies the one to the other, all when it is called. If forcing the function fails,
  the call fails and the value is not forced; if forcing the value fails, or the
  application fails, the call fails. If all three succeed, the call returns, in the state
  the application left, the deferred value that holds its result; and every call that
  returns has come about this way. Forcing the returned deferred value yields that
  result, never fails and forces nothing.
\<close>

theorem applyLazy_eager:
  "(func s = (Inl e, s1) \<longrightarrow> applyLazy val func s = (Inl e, s1)) \<and>
   (func s = (Inr f, s1) \<and> val s1 = (Inl e, s2) \<longrightarrow> applyLazy val func s = (Inl e, s2)) \<and>
   (func s = (Inr f, s1) \<and> val s1 = (Inr v, s2) \<and> f v s2 = (Inl e, s3) \<longrightarrow>
      applyLazy val func s = (Inl e, s3)) \<and>
   (func s = (Inr f, s1) \<and> val s1 = (Inr v, s2) \<and> f v s2 = (Inr u, s3) \<longrightarrow>
      applyLazy val func s = (Inr (lazify u), s3)) \<and>
   (applyLazy val func s = (Inr t, s') \<longrightarrow>
      (\<exists>f s1 v s2 u. func s = (Inr f, s1) \<and> val s1 = (Inr v, s2) \<and> f v s2 = (Inr u, s') \<and>
         t = lazify u \<and> (\<forall>s''. t s'' = (Inr u, s''))))"
  by (auto simp: applyLazy_def bnd_def ret_def lazify_def split: prod.splits sum.splits)

theorem applyLazy_eager_witness:
  "throw (Thrown ''func'') () = (Inl (Thrown ''func'') :: exn + (nat \<Rightarrow> (nat, unit) eff), ()) \<and>
   applyLazy (lazify (5 :: nat)) (throw (Thrown ''func'') :: (nat \<Rightarrow> (nat, unit) eff, unit) Lazy) ()
     = (Inl (Thrown ''func''), ()) \<and>
   lazify (ret :: nat \<Rightarrow> (nat, unit) eff) () = (Inr ret, ()) \<and>
   throw (Thrown ''val'') () = (Inl (Thrown ''val'') :: exn + nat, ()) \<and>
   applyLazy (throw (Thrown ''val'')) (lazify (ret :: nat \<Rightarrow> (nat, unit) eff)) ()
     = (Inl (Thrown ''val''), ()) \<and>
   lazify (5 :: nat) () = (Inr 5, ()) \<and>
   ret (5 :: nat) () = (Inr (5 :: nat), ()) \<and>
   applyLazy (lazify (5 :: nat)) (lazify (ret :: nat \<Rightarrow> (nat, unit) eff)) ()
     = (Inr (lazify 5), ())"
proof -
  have a: "throw (Thrown ''func'') () = (Inl (Thrown ''func'') :: exn + (nat \<Rightarrow> (nat, unit) eff), ())"
    by (rule throw_apply)
  have b: "lazify (ret :: nat \<Rightarrow> (nat, unit) eff) () = (Inr ret, ())" by (rule lazify_apply)
  have c: "throw (Thrown ''val'') () = (Inl (Thrown ''val'') :: exn + nat, ())" by (rule throw_apply)
  have d: "lazify (5 :: nat) () = (Inr 5, ())" by (rule lazify_apply)
  have e: "ret (5 :: nat) () = (Inr (5 :: nat), ())" by (rule ret_apply)
  show ?thesis
    using a b c d e
      applyLazy_eager [where func = "throw (Thrown ''func'') :: (nat \<Rightarrow> (nat, unit) eff, unit) Lazy"
        and s = "()" and e = "Thrown ''func''" and ?s1.0 = "()" and val = "lazify (5 :: nat)"]
      applyLazy_eager [where func = "lazify (ret :: nat \<Rightarrow> (nat, unit) eff)"
        and s = "()" and f = ret and e = "Thrown ''val''" and ?s1.0 = "()" and ?s2.0 = "()"
        and val = "throw (Thrown ''val'')"]
      applyLazy_eager [where func = "lazify (ret :: nat \<Rightarrow> (nat, unit) eff)"
        and s = "()" and f = ret and ?s1.0 = "()" and val = "lazify (5 :: nat)" and v = 5
        and ?s2.0 = "()" and u = 5 and ?s3.0 = "()"]
    by blast
qed

text \<open>
  C2 as stated fails: when forcing the function, or forcing the value, throws, the call
  of \<open>applyLazy\<close> itself throws.
\<close>

theorem applyLazy_counterexample:
  "applyLazy (lazify (5 :: nat)) (throw (Thrown ''func'') :: (nat \<Rightarrow> (nat, unit) eff, unit) Lazy) ()
     = (Inl (Thrown ''func''), ()) \<and>
   applyLazy (throw (Thrown ''val'')) (lazify (ret :: nat \<Rightarrow> (nat, unit) eff)) ()
     = (Inl (Thrown ''val''), ())"
  by (simp add: applyLazy_def bnd_lazify bnd_def throw_apply lazify_apply)

subsection \<open>Code that leaves a counter alone\<close>

lemma keepsD: "keeps obs m \<Longrightarrow> m s = (r, s') \<Longrightarrow> obs s' = obs s"
  by (auto simp: keeps_def dest: spec [of _ s])

lemma keeps_ret: "keeps obs (ret v)"
  by (simp add: keeps_def ret_def)

lemma keeps_lazify: "keeps obs (lazify v)"
  by (simp add: lazify_def keeps_ret)

lemma keeps_bnd:
  assumes "keeps obs m" and "\<And>v s s'. m s = (Inr v, s') \<Longrightarrow> keeps obs (f v)"
  shows "keeps obs (bnd m f)"
  unfolding keeps_def
proof
  fix s
  obtain r s1 where m: "m s = (r, s1)" by (cases "m s")
  have o: "obs s1 = obs s" using assms(1) m by (rule keepsD)
  show "obs (snd (bnd m f s)) = obs s"
  proof (cases r)
    case (Inl e)
    then show ?thesis using m o by (simp add: bnd_def)
  next
    case (Inr v)
    then have "keeps obs (f v)" using m assms(2) by blast
    then have "obs (snd (f v s1)) = obs s1" by (simp add: keeps_def)
    then show ?thesis using m o Inr by (simp add: bnd_def)
  qed
qed

lemma keepsBoth_ret: "keeps obs t \<Longrightarrow> keepsBoth obs (ret t)"
  by (simp add: keepsBoth_def keeps_ret ret_apply)

lemma keeps_forceTimes: "keeps obs t \<Longrightarrow> keeps obs (forceTimes k t)"
  by (induction k) (simp_all add: keeps_ret keeps_bnd)

lemma countOuter_counts:
  assumes "keeps outerForces m"
  shows "outerForces (snd (countOuter m \<sigma>)) = Suc (outerForces \<sigma>)"
  using assms by (simp add: keeps_def countOuter_def)

lemma bnd_ends:
  assumes "bnd m f s = (Inr t, s')"
  obtains v s1 where "m s = (Inr v, s1)" and "f v s1 = (Inr t, s')"
  using assms by (auto simp: bnd_def split: prod.splits sum.splits)

subsection \<open>bindLazy\<close>

text \<open>
  C5. \<open>bindLazy\<close> forces its deferred value exactly once, when it is called: with a
  counted deferred value, and a binder that does not force it (neither the call of the
  binder nor the deferred value the binder returns changes the counter), the counter is
  one higher after the call, and it still is after the returned deferred value has been
  forced \<open>k\<close> times, for every \<open>k\<close>.
\<close>

theorem bindLazy_forces_once:
  fixes val :: "('a, 'z probe_scheme) Lazy"
  assumes "keeps outerForces val" and "\<And>v. keepsBoth outerForces (binder v)"
  shows "outerForces (snd (bindLazy (countOuter val) binder \<sigma>)) = Suc (outerForces \<sigma>) \<and>
         outerForces (snd (bnd (bindLazy (countOuter val) binder) (forceTimes k) \<sigma>))
           = Suc (outerForces \<sigma>)"
proof -
  obtain r \<sigma>1 where v: "countOuter val \<sigma> = (r, \<sigma>1)" by (cases "countOuter val \<sigma>")
  have c: "outerForces \<sigma>1 = Suc (outerForces \<sigma>)"
    using countOuter_counts [OF assms(1), of \<sigma>] v by simp
  have b: "keeps outerForces (binder u)" for u
    using assms(2) by (simp add: keepsBoth_def)
  have t: "keeps outerForces (bnd (binder u) (forceTimes k))" for u
    using assms(2) by (intro keeps_bnd keeps_forceTimes) (auto simp: keepsBoth_def)
  show ?thesis
  proof (cases r)
    case (Inl e)
    then show ?thesis using v c by (simp add: bindLazy_def bnd_def)
  next
    case (Inr u)
    have "bindLazy (countOuter val) binder \<sigma> = binder u \<sigma>1"
      using v Inr by (simp add: bindLazy_def bnd_def)
    moreover have "bnd (bindLazy (countOuter val) binder) (forceTimes k) \<sigma>
        = bnd (binder u) (forceTimes k) \<sigma>1"
      using v Inr by (simp add: bindLazy_def bnd_def)
    moreover have "outerForces (snd (binder u \<sigma>1)) = outerForces \<sigma>1"
      using b [of u] by (simp add: keeps_def)
    moreover have "outerForces (snd (bnd (binder u) (forceTimes k) \<sigma>1)) = outerForces \<sigma>1"
      using t [of u] by (simp add: keeps_def)
    ultimately show ?thesis using c by simp
  qed
qed

theorem bindLazy_forces_once_witness:
  "keeps outerForces (lazify (5 :: nat) :: (nat, probe) Lazy) \<and>
   (\<forall>v :: nat. keepsBoth outerForces (ret (lazify (v * 2)) :: ((nat, probe) Lazy, probe) eff)) \<and>
   outerForces (snd (bindLazy (countOuter (lazify (5 :: nat))) (\<lambda>l. ret (lazify (l * 2))) probe0)) = 1 \<and>
   outerForces (snd (bnd (bindLazy (countOuter (lazify (5 :: nat))) (\<lambda>l. ret (lazify (l * 2))))
      (forceTimes 3) probe0)) = 1"
proof -
  have a: "keeps outerForces (lazify (5 :: nat) :: (nat, probe) Lazy)" by (rule keeps_lazify)
  have b: "keepsBoth outerForces (ret (lazify (v * 2)) :: ((nat, probe) Lazy, probe) eff)" for v :: nat
    by (intro keepsBoth_ret keeps_lazify)
  have z: "outerForces probe0 = 0" by (simp add: probe0_def)
  show ?thesis
    using a b z bindLazy_forces_once [of "lazify 5" "\<lambda>l. ret (lazify (l * 2))" probe0 3, OF a b]
    by simp
qed

subsection \<open>What lazyQuicksort forces\<close>

lemma keepsBothD1: "keepsBoth obs m \<Longrightarrow> keeps obs m"
  by (simp add: keepsBoth_def)

lemma keepsBothD2: "keepsBoth obs m \<Longrightarrow> m s = (Inr t, s') \<Longrightarrow> keeps obs t"
  by (auto simp: keepsBoth_def)

lemma lazyQuicksort_returns_lazify:
  assumes "lazyQuicksort (lazify a) comparator s = (Inr t, s')"
  shows "\<exists>ys. t = lazify ys"
proof (cases a)
  case Nil
  then show ?thesis using assms by (auto simp: lazyQuicksort_Nil)
next
  case (Cons x xs)
  show ?thesis
    using assms unfolding Cons lazyQuicksort_Cons
    by (elim bnd_ends) (auto simp: ret_apply)
qed

lemma filterM_set:
  "filterM p xs s = (Inr ys, s') \<Longrightarrow> set ys \<subseteq> set xs"
proof (induction xs arbitrary: s ys s')
  case Nil
  then show ?case by (simp add: ret_def)
next
  case (Cons x xs)
  from Cons.prems obtain keep s1 pool where
    "filterM p xs s1 = (Inr pool, s')" and "ys = (if keep then x # pool else pool)"
    by (auto simp: ret_apply elim!: bnd_ends)
  then show ?case using Cons.IH by (auto split: if_splits)
qed

lemma keepSmaller_comparison:
  "keepSmaller comparator x a = bnd (comparison comparator a x) (\<lambda>n. ret (le0 n))"
  by (rule ext) (simp add: keepSmaller_def comparison_def bnd_def split: prod.splits sum.splits)

lemma keepBigger_comparison:
  "keepBigger comparator x a = bnd (comparison comparator a x) (\<lambda>n. ret (gt0 n))"
  by (rule ext) (simp add: keepBigger_def comparison_def bnd_def split: prod.splits sum.splits)

lemma keeps_filterM_elements:
  "(\<And>a. a \<in> set xs \<Longrightarrow> keeps obs (p a)) \<Longrightarrow> keeps obs (filterM p xs)"
  by (induction xs) (auto intro!: keeps_bnd keeps_ret)

lemma lazyQuicksort_keeps:
  assumes c: "\<And>a b. a \<in> set l \<Longrightarrow> b \<in> set l \<Longrightarrow> keeps obs (comparison comparator a b)"
  shows "keepsBoth obs (lazyQuicksort (lazify l) comparator)"
  using c
proof (induction "length l" arbitrary: l rule: less_induct)
  case less
  have thunk: "keeps obs t" if "lazyQuicksort (lazify l) comparator s = (Inr t, s')" for s t s'
    using lazyQuicksort_returns_lazify [OF that] by (auto simp: keeps_lazify)
  have "keeps obs (lazyQuicksort (lazify l) comparator)"
  proof (cases l)
    case Nil
    have "lazyQuicksort (lazify []) comparator = ret (lazify [])"
      by (rule ext) (simp add: lazyQuicksort_Nil ret_apply)
    then show ?thesis using Nil by (simp add: keeps_ret)
  next
    case (Cons x xs)
    have pool: "keepsBoth obs (lazyQuicksort (lazify pool) comparator)"
      if "filterM p xs s = (Inr pool, s')" for p pool s s'
    proof -
      have "length pool \<le> length xs" and "set pool \<subseteq> set xs"
        using that by (rule filterM_length, rule filterM_set)
      then show ?thesis using Cons less.prems by (intro less.hyps) auto
    qed
    have small: "keeps obs (keepSmaller comparator x a)" if "a \<in> set xs" for a
      unfolding keepSmaller_comparison using that Cons
      by (intro keeps_bnd keeps_ret less.prems) auto
    have big: "keeps obs (keepBigger comparator x a)" if "a \<in> set xs" for a
      unfolding keepBigger_comparison using that Cons
      by (intro keeps_bnd keeps_ret less.prems) auto
    show ?thesis
      unfolding Cons lazyQuicksort_Cons
    proof (intro keeps_bnd, goal_cases)
      case 1
      show ?case by (intro keeps_filterM_elements small)
    next
      case (2 smaller s s')
      then show ?case by (intro keepsBothD1 pool)
    next
      case (3 smaller s s' smallerSorted sa s'a)
      show ?case by (intro keeps_filterM_elements big)
    next
      case (4 smaller s s' smallerSorted sa s'a bigger sb s'b)
      then show ?case by (intro keepsBothD1 pool)
    next
      case (5 smaller s s' smallerSorted sa s'a bigger sb s'b biggerSorted sc s'c)
      from pool [OF 5(1)] 5(2) show ?case by (rule keepsBothD2)
    next
      case (6 smaller s s' smallerSorted sa s'a bigger sb s'b biggerSorted sc s'c ss sd s'd)
      from pool [OF 6(3)] 6(4) show ?case by (rule keepsBothD2)
    next
      case 7
      show ?case by (rule keeps_ret)
    qed
  qed
  then show ?case using thunk by (auto simp: keepsBoth_def)
qed

lemma lazyQuicksort_level_keeps:
  assumes "\<And>\<sigma>0 a \<sigma>1 p q. input \<sigma>0 = (Inr a, \<sigma>1) \<Longrightarrow> p \<in> set a \<Longrightarrow> q \<in> set a \<Longrightarrow>
             keeps obs (comparison comparator p q)"
    and "input \<sigma>1 = (Inr a1, \<sigma>2)"
  shows "obs (snd (lazyQuicksort (lazify (if a1 = [] then [Undefined] else a1)) comparator s)) = obs s"
proof (cases "a1 = []")
  case True
  then show ?thesis by (simp add: lazyQuicksort_single ret_apply)
next
  case False
  have "keepsBoth obs (lazyQuicksort (lazify a1) comparator)"
    using assms by (intro lazyQuicksort_keeps) blast
  then show ?thesis using False by (simp add: keepsBoth_def keeps_def)
qed

lemma lazyQuicksort_input_keeps:
  assumes "keeps obs input"
    and "\<And>\<sigma>0 a \<sigma>1 p q. input \<sigma>0 = (Inr a, \<sigma>1) \<Longrightarrow> p \<in> set a \<Longrightarrow> q \<in> set a \<Longrightarrow>
             keeps obs (comparison comparator p q)"
  shows "obs (snd (lazyQuicksort input comparator s)) = obs s"
proof -
  obtain r0 s1 where f0: "input s = (r0, s1)" by (cases "input s")
  obtain r1 s2 where f1: "input s1 = (r1, s2)" by (cases "input s1")
  have o1: "obs s1 = obs s" using assms(1) f0 by (rule keepsD)
  have o2: "obs s2 = obs s1" using assms(1) f1 by (rule keepsD)
  show ?thesis
  proof (cases r0)
    case (Inl e)
    then show ?thesis using f0 o1 by (subst lazyQuicksort_unfold) simp
  next
    case (Inr a0)
    note r0 = Inr
    show ?thesis
    proof (cases r1)
      case (Inl e)
      then show ?thesis using f0 f1 r0 o1 o2 by (subst lazyQuicksort_unfold) simp
    next
      case (Inr a1)
      have "obs (snd (lazyQuicksort (lazify (if a1 = [] then [Undefined] else a1)) comparator s2))
          = obs s2"
        using assms(2) f1 [unfolded Inr] by (rule lazyQuicksort_level_keeps)
      then show ?thesis using f0 f1 r0 Inr o1 o2 by (subst lazyQuicksort_unfold) simp
    qed
  qed
qed

lemma comparison_countCalls:
  "comparison (countCalls comparator) p q \<sigma>
     = comparison comparator p q (\<sigma>\<lparr>comparatorCalls := Suc (comparatorCalls \<sigma>)\<rparr>)"
  by (simp add: comparison_def countCalls_def bnd_def)

lemma keeps_countOuter:
  fixes obs :: "'z probe_scheme \<Rightarrow> 'k"
  assumes "keeps obs m" and "\<And>\<sigma> n. obs (\<sigma>\<lparr>outerForces := n\<rparr>) = obs \<sigma>"
  shows "keeps obs (countOuter m)"
  using assms by (simp add: keeps_def countOuter_def)

lemma keeps_countElements: "keeps obs arr \<Longrightarrow> keeps obs (countElements arr)"
  unfolding countElements_def by (intro keeps_bnd keeps_ret)

lemma comparison_subtraction_counted:
  "comparison subtractionComparator (Elem (countElement (lazify u))) (Elem (countElement (lazify v))) s
     = (Inr (jsMinus u v), s\<lparr>elementForces := Suc (Suc (elementForces s))\<rparr>)"
  by (simp add: comparison_def subtractionComparator_def force_def countElement_def
      bnd_def ret_def lazify_apply)

lemma countElements_lazyToGreedy:
  "countElements (lazyToGreedy vs) s = (Inr a, s') \<Longrightarrow>
     a = map (\<lambda>v. Elem (countElement (lazify v))) vs"
  by (auto simp: countElements_def lazyToGreedy_def bnd_lazify ret_apply)

text \<open>
  C10. Let the outer producer of the input count its forcings, every element of the
  array it returns count its own, and the comparator count its calls. The comparator may
  force its arguments, as the subtraction comparator does; it does not force the outer
  producer. Then a call of lazyQuicksort forces the outer producer once when that
  forcing returns the empty array, and twice when it returns a non-empty one (also when
  the second forcing or a comparison throws). And lazyQuicksort forces no element
  itself: when each comparison of two elements of the array forces \<open>c\<close> elements, the
  elements forced during the call are \<open>c\<close> for each call of the comparator and no more
  (\<open>c\<close> is 2 for the subtraction comparator, 0 for a comparator that forces nothing).
\<close>

theorem lazyQuicksort_forces:
  fixes arr :: "('a, 'z probe_scheme) LazyArray" and c :: nat
  assumes "keeps outerForces arr"
    and "\<And>\<sigma>0 a \<sigma>1 p q. countElements arr \<sigma>0 = (Inr a, \<sigma>1) \<Longrightarrow> p \<in> set a \<Longrightarrow> q \<in> set a \<Longrightarrow>
           keeps outerForces (comparison comparator p q)"
  shows
    "(fst (countOuter (countElements arr) \<sigma>) = Inr [] \<longrightarrow>
        outerForces (snd (lazyQuicksort (countOuter (countElements arr)) (countCalls comparator) \<sigma>))
          = outerForces \<sigma> + 1) \<and>
     ((\<exists>h t. fst (countOuter (countElements arr) \<sigma>) = Inr (h # t)) \<longrightarrow>
        outerForces (snd (lazyQuicksort (countOuter (countElements arr)) (countCalls comparator) \<sigma>))
          = outerForces \<sigma> + 2) \<and>
     (keeps elementForces arr \<and> keeps comparatorCalls arr \<and>
      (\<forall>\<sigma>0 a \<sigma>1 p q s. countElements arr \<sigma>0 = (Inr a, \<sigma>1) \<and> p \<in> set a \<and> q \<in> set a \<longrightarrow>
         comparatorCalls (snd (comparison comparator p q s)) = comparatorCalls s \<and>
         elementForces (snd (comparison comparator p q s)) = elementForces s + c) \<longrightarrow>
      elementForces (snd (lazyQuicksort (countOuter (countElements arr)) (countCalls comparator) \<sigma>))
          + c * comparatorCalls \<sigma>
        = elementForces \<sigma>
          + c * comparatorCalls (snd (lazyQuicksort (countOuter (countElements arr))
              (countCalls comparator) \<sigma>)))"
proof -
  let ?input = "countOuter (countElements arr)"
  let ?cmp = "countCalls comparator"
  have returned: "\<exists>\<sigma>0'. countElements arr \<sigma>0' = (Inr a, \<sigma>1)" if "?input \<sigma>0 = (Inr a, \<sigma>1)" for \<sigma>0 a \<sigma>1
    using that by (auto simp: countOuter_def)
  have ko: "keeps outerForces (countElements arr)"
    using assms(1) by (rule keeps_countElements)
  have co: "keeps outerForces (comparison ?cmp p q)"
    if "?input \<sigma>0 = (Inr a, \<sigma>1)" and "p \<in> set a" and "q \<in> set a" for \<sigma>0 a \<sigma>1 p q
  proof -
    from returned [OF that(1)] obtain \<sigma>0' where "countElements arr \<sigma>0' = (Inr a, \<sigma>1)" by blast
    from assms(2) [OF this that(2,3)] show ?thesis
      by (simp add: keeps_def comparison_countCalls)
  qed
  obtain r0 \<sigma>1 where f0: "?input \<sigma> = (r0, \<sigma>1)" by (cases "?input \<sigma>")
  have o1: "outerForces \<sigma>1 = outerForces \<sigma> + 1"
    using countOuter_counts [OF ko, of \<sigma>] f0 by simp
  obtain r1 \<sigma>2 where f1: "?input \<sigma>1 = (r1, \<sigma>2)" by (cases "?input \<sigma>1")
  have o2: "outerForces \<sigma>2 = outerForces \<sigma> + 2"
    using countOuter_counts [OF ko, of \<sigma>1] f1 o1 by simp
  have empty: "outerForces (snd (lazyQuicksort ?input ?cmp \<sigma>)) = outerForces \<sigma> + 1"
    if "fst (?input \<sigma>) = Inr []"
  proof -
    have "lazyQuicksort ?input ?cmp \<sigma> = (Inr ?input, \<sigma>1)"
      using f0 that by (simp add: lazyQuicksort_empty)
    then show ?thesis using o1 by simp
  qed
  have nonempty: "outerForces (snd (lazyQuicksort ?input ?cmp \<sigma>)) = outerForces \<sigma> + 2"
    if "fst (?input \<sigma>) = Inr (h # t)" for h t
  proof (cases r1)
    case (Inl e)
    then have "lazyQuicksort ?input ?cmp \<sigma> = (Inl e, \<sigma>2)"
      using f0 f1 that by (subst lazyQuicksort_unfold) simp
    then show ?thesis using o2 by simp
  next
    case (Inr a1)
    have "outerForces (snd (lazyQuicksort (lazify (if a1 = [] then [Undefined] else a1)) ?cmp \<sigma>2))
        = outerForces \<sigma>2"
      using co f1 [unfolded Inr] by (rule lazyQuicksort_level_keeps)
    moreover have "lazyQuicksort ?input ?cmp \<sigma>
        = lazyQuicksort (lazify (if a1 = [] then [Undefined] else a1)) ?cmp \<sigma>2"
      using f0 f1 that Inr by (subst lazyQuicksort_unfold) simp
    ultimately show ?thesis using o2 by simp
  qed
  have elements: "elementForces (snd (lazyQuicksort ?input ?cmp \<sigma>)) + c * comparatorCalls \<sigma>
      = elementForces \<sigma> + c * comparatorCalls (snd (lazyQuicksort ?input ?cmp \<sigma>))"
    if ke: "keeps elementForces arr" and kc: "keeps comparatorCalls arr"
      and cmp: "\<forall>\<sigma>0 a \<sigma>1 p q s. countElements arr \<sigma>0 = (Inr a, \<sigma>1) \<and> p \<in> set a \<and> q \<in> set a \<longrightarrow>
         comparatorCalls (snd (comparison comparator p q s)) = comparatorCalls s \<and>
         elementForces (snd (comparison comparator p q s)) = elementForces s + c"
  proof -
    let ?obs = "\<lambda>\<sigma> :: 'z probe_scheme. int (elementForces \<sigma>) - int c * int (comparatorCalls \<sigma>)"
    have "keeps ?obs arr"
      using ke kc by (simp add: keeps_def)
    then have ki: "keeps ?obs ?input"
      by (intro keeps_countOuter keeps_countElements) simp_all
    have kq: "keeps ?obs (comparison ?cmp p q)"
      if "?input \<sigma>0 = (Inr a, \<sigma>1)" and "p \<in> set a" and "q \<in> set a" for \<sigma>0 a \<sigma>1 p q
    proof -
      from returned [OF that(1)] obtain \<sigma>0' where "countElements arr \<sigma>0' = (Inr a, \<sigma>1)" by blast
      with cmp that(2,3) have "\<And>s. comparatorCalls (snd (comparison comparator p q s)) = comparatorCalls s \<and>
         elementForces (snd (comparison comparator p q s)) = elementForces s + c"
        by blast
      then show ?thesis
        by (simp add: keeps_def comparison_countCalls algebra_simps)
    qed
    have "?obs (snd (lazyQuicksort ?input ?cmp \<sigma>)) = ?obs \<sigma>"
      using ki kq by (rule lazyQuicksort_input_keeps)
    then have "int (elementForces (snd (lazyQuicksort ?input ?cmp \<sigma>)) + c * comparatorCalls \<sigma>)
      = int (elementForces \<sigma> + c * comparatorCalls (snd (lazyQuicksort ?input ?cmp \<sigma>)))"
      by simp
    then show ?thesis by (simp only: of_nat_eq_iff)
  qed
  show ?thesis using empty nonempty elements by blast
qed

theorem lazyQuicksort_forces_witness:
  "fst (countOuter (countElements (lazyToGreedy [Num (Fin 2), Num (Fin 1), Num (Fin 3)])) probe0)
     = Inr [Elem (countElement (lazify (Num (Fin 2)))), Elem (countElement (lazify (Num (Fin 1)))),
            Elem (countElement (lazify (Num (Fin 3))))] \<and>
   outerForces (snd (lazyQuicksort
     (countOuter (countElements (lazyToGreedy [Num (Fin 2), Num (Fin 1), Num (Fin 3)])))
     (countCalls subtractionComparator) probe0)) = 2 \<and>
   comparatorCalls (snd (lazyQuicksort
     (countOuter (countElements (lazyToGreedy [Num (Fin 2), Num (Fin 1), Num (Fin 3)])))
     (countCalls subtractionComparator) probe0)) = 4 \<and>
   elementForces (snd (lazyQuicksort
     (countOuter (countElements (lazyToGreedy [Num (Fin 2), Num (Fin 1), Num (Fin 3)])))
     (countCalls subtractionComparator) probe0)) = 2 * 4 \<and>
   fst (countOuter (countElements (lazyToGreedy ([] :: Comparable list))) probe0) = Inr [] \<and>
   outerForces (snd (lazyQuicksort (countOuter (countElements (lazyToGreedy ([] :: Comparable list))))
     (countCalls subtractionComparator) probe0)) = 1"
proof -
  let ?three = "lazyToGreedy [Num (Fin 2), Num (Fin 1), Num (Fin 3)] :: (Comparable, probe) LazyArray"
  let ?none = "lazyToGreedy [] :: (Comparable, probe) LazyArray"
  let ?cmp = "subtractionComparator :: (Comparable, probe) comparator"
  let ?run = "lazyQuicksort (countOuter (countElements ?three)) (countCalls ?cmp) probe0"
  have k: "keeps obs (lazyToGreedy vs :: (Comparable, probe) LazyArray)" for obs :: "probe \<Rightarrow> nat" and vs
    by (simp add: lazyToGreedy_def keeps_lazify)
  have o: "keeps outerForces (comparison ?cmp p q)"
    if "countElements (lazyToGreedy vs) \<sigma>0 = (Inr a, \<sigma>1)" and "p \<in> set a" and "q \<in> set a"
    for vs \<sigma>0 a \<sigma>1 p q
    using that(2,3) unfolding countElements_lazyToGreedy [OF that(1)]
    by (auto simp: keeps_def comparison_subtraction_counted)
  have e: "\<forall>\<sigma>0 a \<sigma>1 p q s. countElements ?three \<sigma>0 = (Inr a, \<sigma>1) \<and> p \<in> set a \<and> q \<in> set a \<longrightarrow>
         comparatorCalls (snd (comparison ?cmp p q s)) = comparatorCalls s \<and>
         elementForces (snd (comparison ?cmp p q s)) = elementForces s + 2"
    by (auto dest!: countElements_lazyToGreedy simp: comparison_subtraction_counted)
  have f3: "fst (countOuter (countElements ?three) probe0)
     = Inr [Elem (countElement (lazify (Num (Fin 2)))), Elem (countElement (lazify (Num (Fin 1)))),
            Elem (countElement (lazify (Num (Fin 3))))]"
    by (simp add: countOuter_def countElements_def lazyToGreedy_def bnd_lazify ret_apply)
  have f0: "fst (countOuter (countElements ?none) probe0) = Inr []"
    by (simp add: countOuter_def countElements_def lazyToGreedy_def bnd_lazify ret_apply)
  have calls: "comparatorCalls (snd ?run) = 4"
    by (subst lazyQuicksort_unfold)
       (simp add: countOuter_def countElements_def lazyToGreedy_def bnd_lazify ret_apply
          lazyQuicksort_Cons lazyQuicksort_Nil keepSmaller_def keepBigger_def countCalls_def
          subtractionComparator_def force_def countElement_def jsMinus_def bnd_def ret_def
          lazify_apply probe0_def)
  note three = lazyQuicksort_forces [of ?three ?cmp probe0 2, OF k o]
  note none = lazyQuicksort_forces [of ?none ?cmp probe0 2, OF k o]
  have outer3: "outerForces (snd ?run) = 2"
    using three f3 by (simp add: probe0_def)
  have elems: "elementForces (snd ?run) = 2 * 4"
    using three k [of elementForces] k [of comparatorCalls] e calls by (simp add: probe0_def)
  have outer0: "outerForces (snd (lazyQuicksort (countOuter (countElements ?none))
      (countCalls ?cmp) probe0)) = 1"
    using none f0 by (simp add: probe0_def)
  show ?thesis using f3 outer3 calls elems f0 outer0 by (intro conjI)
qed


subsection \<open>Comparator calls of one level\<close>

lemma succeedsBoth_countCalls:
  "succeedsBoth (comparator a b) \<Longrightarrow> succeedsBoth (countCalls comparator a b)"
  by (simp add: succeedsBoth_def succeeds_def countCalls_def)

lemma succeedsD: "succeeds m \<Longrightarrow> \<exists>v s'. m s = (Inr v, s')"
  by (simp add: succeeds_def)

lemma succeeds_test:
  assumes "succeedsBoth (comparator a x)"
  shows "\<exists>keep s'. bnd (comparator a x) (\<lambda>c. bnd c (\<lambda>n. ret (test n))) s = (Inr keep, s')"
proof -
  have "succeeds (comparator a x)" using assms by (simp add: succeedsBoth_def)
  from succeedsD [OF this, of s] obtain c s1 where c: "comparator a x s = (Inr c, s1)"
    by auto
  then have "succeeds c" using assms by (auto simp: succeedsBoth_def)
  from succeedsD [OF this, of s1] obtain n s2 where "c s1 = (Inr n, s2)" by auto
  then show ?thesis using c by (simp add: bnd_def ret_def)
qed

lemma filterM_succeeds:
  assumes "\<And>a s. a \<in> set xs \<Longrightarrow> \<exists>keep s'. p a s = (Inr keep, s')"
  shows "\<exists>ys s'. filterM p xs s = (Inr ys, s')"
  using assms
proof (induction xs arbitrary: s)
  case Nil
  show ?case by (simp add: ret_apply)
next
  case (Cons x xs)
  obtain keep s1 where k: "p x s = (Inr keep, s1)" using Cons.prems [of x s] by auto
  obtain ys s2 where "filterM p xs s1 = (Inr ys, s2)"
    using Cons.IH [of s1] Cons.prems by auto
  then show ?case using k by (simp add: bnd_def ret_def)
qed

lemma lazyQuicksort_succeeds:
  assumes "\<And>a b. a \<in> set l \<Longrightarrow> b \<in> set l \<Longrightarrow> succeedsBoth (comparator a b)"
  shows "\<exists>ys s'. lazyQuicksort (lazify l) comparator s = (Inr (lazify ys), s')"
  using assms
proof (induction "length l" arbitrary: l s rule: less_induct)
  case less
  show ?case
  proof (cases l)
    case Nil
    then show ?thesis by (auto simp: lazyQuicksort_Nil)
  next
    case (Cons x xs)
    have rec: "\<exists>ys s'. lazyQuicksort (lazify pool) comparator s1 = (Inr (lazify ys), s')"
      if "filterM p xs s0 = (Inr pool, s0')" for p pool s0 s0' s1
    proof -
      have "length pool \<le> length xs" and "set pool \<subseteq> set xs"
        using that by (rule filterM_length, rule filterM_set)
      then show ?thesis using Cons less.prems by (intro less.hyps) auto
    qed
    have t: "\<exists>keep s'. bnd (comparator a x) (\<lambda>c. bnd c (\<lambda>n. ret (test n))) s = (Inr keep, s')"
      if "a \<in> set xs" for a s and test :: "number \<Rightarrow> bool"
      using that Cons less.prems by (intro succeeds_test) auto
    obtain smaller s1 where f1: "filterM (keepSmaller comparator x) xs s = (Inr smaller, s1)"
      using filterM_succeeds [of xs "keepSmaller comparator x" s] t
      unfolding keepSmaller_def by blast
    obtain ss s2 where r1: "lazyQuicksort (lazify smaller) comparator s1 = (Inr (lazify ss), s2)"
      using rec [OF f1] by blast
    obtain bigger s3 where f2: "filterM (keepBigger comparator x) xs s2 = (Inr bigger, s3)"
      using filterM_succeeds [of xs "keepBigger comparator x" s2] t
      unfolding keepBigger_def by blast
    obtain bs s4 where r2: "lazyQuicksort (lazify bigger) comparator s3 = (Inr (lazify bs), s4)"
      using rec [OF f2] by blast
    have "lazyQuicksort (lazify l) comparator s = (Inr (lazify (ss @ [x] @ bs)), s4)"
      unfolding Cons lazyQuicksort_Cons
      by (simp add: bnd_def f1 r1 f2 r2 lazify_apply ret_apply)
    then show ?thesis by blast
  qed
qed

lemma counted_test:
  fixes comparator :: "('a, 'z probe_scheme) comparator"
  assumes "keepsBoth comparatorCalls (comparator a x)" and "succeedsBoth (comparator a x)"
  shows "\<exists>keep \<sigma>'. bnd (countCalls comparator a x) (\<lambda>c. bnd c (\<lambda>n. ret (test n))) \<sigma> = (Inr keep, \<sigma>') \<and>
           comparatorCalls \<sigma>' = Suc (comparatorCalls \<sigma>)"
proof -
  let ?\<sigma> = "\<sigma>\<lparr>comparatorCalls := Suc (comparatorCalls \<sigma>)\<rparr>"
  have "succeeds (comparator a x)" using assms(2) by (simp add: succeedsBoth_def)
  from succeedsD [OF this, of ?\<sigma>] obtain c \<sigma>1 where c: "comparator a x ?\<sigma> = (Inr c, \<sigma>1)"
    by auto
  have k1: "comparatorCalls \<sigma>1 = Suc (comparatorCalls \<sigma>)"
    using keepsD [OF keepsBothD1 [OF assms(1)] c] by simp
  have "succeeds c" using assms(2) c by (auto simp: succeedsBoth_def)
  from succeedsD [OF this, of \<sigma>1] obtain n \<sigma>2 where n: "c \<sigma>1 = (Inr n, \<sigma>2)" by auto
  have "comparatorCalls \<sigma>2 = comparatorCalls \<sigma>1"
    using keepsD [OF keepsBothD2 [OF assms(1) c] n] .
  then show ?thesis using c n k1 by (simp add: bnd_def ret_def countCalls_def)
qed

lemma filterM_counts:
  fixes p :: "'a \<Rightarrow> (bool, 'z probe_scheme) eff"
  assumes "\<And>a \<sigma>. a \<in> set xs \<Longrightarrow>
     \<exists>keep \<sigma>'. p a \<sigma> = (Inr keep, \<sigma>') \<and> comparatorCalls \<sigma>' = Suc (comparatorCalls \<sigma>)"
  shows "\<exists>ys \<sigma>'. filterM p xs \<sigma> = (Inr ys, \<sigma>') \<and>
           comparatorCalls \<sigma>' = comparatorCalls \<sigma> + length xs"
  using assms
proof (induction xs arbitrary: \<sigma>)
  case Nil
  show ?case by (simp add: ret_apply)
next
  case (Cons x xs)
  obtain keep \<sigma>1 where k: "p x \<sigma> = (Inr keep, \<sigma>1)" "comparatorCalls \<sigma>1 = Suc (comparatorCalls \<sigma>)"
    using Cons.prems [of x \<sigma>] by auto
  obtain ys \<sigma>2 where "filterM p xs \<sigma>1 = (Inr ys, \<sigma>2)"
      "comparatorCalls \<sigma>2 = comparatorCalls \<sigma>1 + length xs"
    using Cons.IH [of \<sigma>1] Cons.prems by auto
  then show ?case using k by (simp add: bnd_def ret_def)
qed

lemma succeeds_ret: "succeeds (ret v)"
  by (simp add: succeeds_def ret_def)

lemma succeeds_lazify: "succeeds (lazify v)"
  by (simp add: lazify_def succeeds_ret)

lemma succeedsBoth_ret: "succeeds t \<Longrightarrow> succeedsBoth (ret t)"
  by (simp add: succeedsBoth_def succeeds_ret ret_apply)

lemma subtractionComparator_values:
  "subtractionComparator (Elem (lazify u)) (Elem (lazify v)) = ret (lazify (jsMinus u v))"
  by (simp add: subtractionComparator_def force_def bnd_lazify) (simp add: lazify_def)

text \<open>
  C9 (as amended). Take a level of lazyQuicksort whose array is \<open>x # xs\<close>, with a
  counted comparator that, on the elements of the array, never fails (neither its call
  nor the forcing of its result) and does not touch the counter itself. Then the level
  runs to its end, and the comparator is called exactly \<open>length xs\<close> times by the
  not-greater filter and exactly \<open>length xs\<close> times more by the greater filter: twice
  per element of \<open>xs\<close>, the calls of the two recursive calls not counted.
\<close>

theorem lazyQuicksort_level_calls:
  fixes comparator :: "('a, 'z probe_scheme) comparator"
  assumes "\<And>a b. a \<in> set (x # xs) \<Longrightarrow> b \<in> set (x # xs) \<Longrightarrow>
     keepsBoth comparatorCalls (comparator a b) \<and> succeedsBoth (comparator a b)"
  shows "\<exists>smaller \<sigma>1 smallerSorted \<sigma>2 bigger \<sigma>3 biggerSorted \<sigma>4 sorted.
     filterM (keepSmaller (countCalls comparator) x) xs \<sigma> = (Inr smaller, \<sigma>1) \<and>
     comparatorCalls \<sigma>1 = comparatorCalls \<sigma> + length xs \<and>
     lazyQuicksort (lazify smaller) (countCalls comparator) \<sigma>1 = (Inr smallerSorted, \<sigma>2) \<and>
     filterM (keepBigger (countCalls comparator) x) xs \<sigma>2 = (Inr bigger, \<sigma>3) \<and>
     comparatorCalls \<sigma>3 = comparatorCalls \<sigma>2 + length xs \<and>
     lazyQuicksort (lazify bigger) (countCalls comparator) \<sigma>3 = (Inr biggerSorted, \<sigma>4) \<and>
     lazyQuicksort (lazify (x # xs)) (countCalls comparator) \<sigma> = (Inr sorted, \<sigma>4)"
proof -
  let ?cmp = "countCalls comparator"
  have t: "\<exists>keep \<sigma>'. bnd (?cmp a x) (\<lambda>c. bnd c (\<lambda>n. ret (test n))) \<sigma>0 = (Inr keep, \<sigma>') \<and>
           comparatorCalls \<sigma>' = Suc (comparatorCalls \<sigma>0)"
    if "a \<in> set xs" for a \<sigma>0 and test :: "number \<Rightarrow> bool"
    using that assms by (intro counted_test) auto
  have rec: "\<exists>ys \<sigma>'. lazyQuicksort (lazify pool) ?cmp \<sigma>0 = (Inr (lazify ys), \<sigma>')"
    if "set pool \<subseteq> set xs" for pool \<sigma>0
    using that assms by (intro lazyQuicksort_succeeds succeedsBoth_countCalls) auto
  obtain smaller \<sigma>1 where f1: "filterM (keepSmaller ?cmp x) xs \<sigma> = (Inr smaller, \<sigma>1)"
      "comparatorCalls \<sigma>1 = comparatorCalls \<sigma> + length xs"
    using filterM_counts [of xs "keepSmaller ?cmp x" \<sigma>] t unfolding keepSmaller_def by blast
  obtain ss \<sigma>2 where r1: "lazyQuicksort (lazify smaller) ?cmp \<sigma>1 = (Inr (lazify ss), \<sigma>2)"
    using rec [OF filterM_set [OF f1(1)]] by blast
  obtain bigger \<sigma>3 where f2: "filterM (keepBigger ?cmp x) xs \<sigma>2 = (Inr bigger, \<sigma>3)"
      "comparatorCalls \<sigma>3 = comparatorCalls \<sigma>2 + length xs"
    using filterM_counts [of xs "keepBigger ?cmp x" \<sigma>2] t unfolding keepBigger_def by blast
  obtain bs \<sigma>4 where r2: "lazyQuicksort (lazify bigger) ?cmp \<sigma>3 = (Inr (lazify bs), \<sigma>4)"
    using rec [OF filterM_set [OF f2(1)]] by blast
  have "lazyQuicksort (lazify (x # xs)) ?cmp \<sigma> = (Inr (lazify (ss @ [x] @ bs)), \<sigma>4)"
    unfolding lazyQuicksort_Cons
    by (simp add: bnd_def f1(1) r1 f2(1) r2 lazify_apply ret_apply)
  then show ?thesis using f1 r1 f2 r2 by blast
qed

theorem lazyQuicksort_level_calls_witness:
  "(\<exists>smaller \<sigma>1 smallerSorted \<sigma>2 bigger \<sigma>3 biggerSorted \<sigma>4 sorted.
     filterM (keepSmaller (countCalls subtractionComparator) (Elem (lazify (Num (Fin 2)))))
       [Elem (lazify (Num (Fin 1))), Elem (lazify (Num (Fin 3)))] probe0 = (Inr smaller, \<sigma>1) \<and>
     comparatorCalls \<sigma>1 = comparatorCalls probe0
       + length [Elem (lazify (Num (Fin 1))), Elem (lazify (Num (Fin 3)) :: (Comparable, probe) Lazy)] \<and>
     lazyQuicksort (lazify smaller) (countCalls subtractionComparator) \<sigma>1 = (Inr smallerSorted, \<sigma>2) \<and>
     filterM (keepBigger (countCalls subtractionComparator) (Elem (lazify (Num (Fin 2)))))
       [Elem (lazify (Num (Fin 1))), Elem (lazify (Num (Fin 3)))] \<sigma>2 = (Inr bigger, \<sigma>3) \<and>
     comparatorCalls \<sigma>3 = comparatorCalls \<sigma>2
       + length [Elem (lazify (Num (Fin 1))), Elem (lazify (Num (Fin 3)) :: (Comparable, probe) Lazy)] \<and>
     lazyQuicksort (lazify bigger) (countCalls subtractionComparator) \<sigma>3 = (Inr biggerSorted, \<sigma>4) \<and>
     lazyQuicksort (lazify [Elem (lazify (Num (Fin 2))), Elem (lazify (Num (Fin 1))),
         Elem (lazify (Num (Fin 3)))]) (countCalls subtractionComparator) probe0
       = (Inr sorted, \<sigma>4)) \<and>
   comparatorCalls (snd (lazyQuicksort (lazify [Elem (lazify (Num (Fin 2))), Elem (lazify (Num (Fin 1))),
         Elem (lazify (Num (Fin 3)))]) (countCalls subtractionComparator) probe0)) = 4"
proof -
  let ?x = "Elem (lazify (Num (Fin 2))) :: (Comparable, probe) Lazy slot"
  let ?xs = "[Elem (lazify (Num (Fin 1))), Elem (lazify (Num (Fin 3)))] :: (Comparable, probe) Lazy slot list"
  have h: "keepsBoth comparatorCalls (subtractionComparator a b) \<and> succeedsBoth (subtractionComparator a b)"
    if "a \<in> set (?x # ?xs)" and "b \<in> set (?x # ?xs)" for a b
    using that
    by (auto simp: subtractionComparator_values
        intro!: keepsBoth_ret succeedsBoth_ret keeps_lazify succeeds_lazify)
  have total: "comparatorCalls (snd (lazyQuicksort (lazify (?x # ?xs))
      (countCalls subtractionComparator) probe0)) = 4"
    by (simp add: lazyQuicksort_Cons lazyQuicksort_Nil keepSmaller_def keepBigger_def countCalls_def
        subtractionComparator_values jsMinus_def bnd_def ret_def lazify_apply probe0_def)
  show ?thesis
    using lazyQuicksort_level_calls [of ?x ?xs subtractionComparator probe0, OF h] total
    by (intro conjI)
qed

text \<open>
  C9 as stated fails when a comparison fails: the exception ends the level. With the
  pivot 2 and a remainder of one element whose forcing throws, the subtraction
  comparator is called once, not twice.
\<close>

theorem lazyQuicksort_level_calls_counterexample:
  "fst (lazyQuicksort (lazify [Elem (lazify (Num (Fin 2))), Elem (throw (Thrown ''element''))])
     (countCalls subtractionComparator) probe0) = Inl (Thrown ''element'') \<and>
   comparatorCalls (snd (lazyQuicksort
     (lazify [Elem (lazify (Num (Fin 2))), Elem (throw (Thrown ''element''))])
     (countCalls subtractionComparator) probe0)) = 1 \<and>
   2 * length [Elem (throw (Thrown ''element'') :: (Comparable, probe) Lazy)] = 2"
  by (simp add: lazyQuicksort_Cons keepSmaller_def countCalls_def subtractionComparator_def
      force_def bnd_def ret_def throw_def lazify_apply probe0_def)

subsection \<open>The map over a lazy array forces every element at the call\<close>

lemma mapM_wrap:
  "mapM (\<lambda>l. bnd (force l) (\<lambda>v. bnd (mapper v) (\<lambda>u. ret (Elem (lazify u))))) a s =
     bnd (mapM (\<lambda>l. bnd (force l) mapper) a) (\<lambda>us. ret (map (\<lambda>u. Elem (lazify u)) us)) s"
proof (induction a arbitrary: s)
  case Nil
  show ?case by (simp add: bnd_ret)
next
  case (Cons l a)
  show ?case
    by (simp add: bnd_def ret_def Cons.IH [unfolded bnd_def ret_def]
        split: prod.splits sum.splits)
qed

lemma mapLazy_array_unfold:
  "mapLazy_array arr mapper s =
     bnd arr (\<lambda>a. bnd (mapM (\<lambda>l. bnd (force l) mapper) a) (\<lambda>us. ret (lazyToGreedy us))) s"
  by (simp add: mapLazy_array_def lazyToGreedy_def bnd_def ret_def mapM_wrap [unfolded bnd_def ret_def]
      split: prod.splits sum.splits)

lemma logElement_logs:
  assumes "keeps forcedElements t" and "logElement i t \<sigma> = (r, \<sigma>')"
  shows "forcedElements \<sigma>' = forcedElements \<sigma> @ [i]"
  using assms keepsD [of forcedElements t "\<sigma>\<lparr>forcedElements := forcedElements \<sigma> @ [i]\<rparr>" r \<sigma>']
  by (simp add: logElement_def)

lemma mapM_logged:
  fixes ts :: "('a, 'z journal_scheme) Lazy list"
  assumes "\<And>t. t \<in> set ts \<Longrightarrow> keeps forcedElements t"
    and "\<And>v. keeps forcedElements (mapper v)"
    and "mapM (\<lambda>l. bnd (force l) mapper)
           (map (\<lambda>(i, t). Elem (logElement i t)) (enumerate k ts)) \<sigma> = (Inr us, \<sigma>')"
  shows "forcedElements \<sigma>' = forcedElements \<sigma> @ [k..<k + length ts]"
  using assms(1,3)
proof (induction ts arbitrary: k \<sigma> us)
  case Nil
  then show ?case by (simp add: ret_apply)
next
  case (Cons t ts)
  let ?f = "\<lambda>l. bnd (force l) mapper"
  let ?rest = "map (\<lambda>(i, t). Elem (logElement i t)) (enumerate (Suc k) ts)"
  from Cons.prems(2)
  have "bnd (?f (Elem (logElement k t))) (\<lambda>y. bnd (mapM ?f ?rest) (\<lambda>ys. ret (y # ys))) \<sigma> = (Inr us, \<sigma>')"
    by simp
  then obtain u \<sigma>2 where
    h: "?f (Elem (logElement k t)) \<sigma> = (Inr u, \<sigma>2)" and
    tl: "bnd (mapM ?f ?rest) (\<lambda>ys. ret (u # ys)) \<sigma>2 = (Inr us, \<sigma>')"
    by (rule bnd_ends)
  from h have "bnd (logElement k t) mapper \<sigma> = (Inr u, \<sigma>2)" by (simp add: force_def)
  then obtain v \<sigma>1 where f: "logElement k t \<sigma> = (Inr v, \<sigma>1)" and m: "mapper v \<sigma>1 = (Inr u, \<sigma>2)"
    by (rule bnd_ends)
  from tl obtain rest where r: "mapM ?f ?rest \<sigma>2 = (Inr rest, \<sigma>')"
    by (auto simp: ret_apply elim!: bnd_ends)
  have "forcedElements \<sigma>1 = forcedElements \<sigma> @ [k]"
    using Cons.prems(1) f by (intro logElement_logs [of t]) auto
  moreover have "forcedElements \<sigma>2 = forcedElements \<sigma>1"
    using assms(2) m by (rule keepsD)
  moreover have "forcedElements \<sigma>' = forcedElements \<sigma>2 @ [Suc k..<Suc k + length ts]"
    using Cons.IH [OF _ r] Cons.prems(1) by auto
  moreover have "[k..<k + length (t # ts)] = k # [Suc k..<Suc k + length ts]"
  proof -
    have "k < k + length (t # ts)" by simp
    then have "[k..<k + length (t # ts)] = k # [Suc k..<k + length (t # ts)]"
      by (rule upt_conv_Cons)
    moreover have "k + length (t # ts) = Suc k + length ts" by simp
    ultimately show ?thesis by (simp only:)
  qed
  ultimately show ?case by (simp only: append_assoc append_Cons append_Nil)
qed

text \<open>
  C4 (as amended). Collapsing is not the only operation that forces a whole lazy array:
  the map over a lazy array does it when it is called. The call forces the outer layer,
  then, element by element and in order, forces the element and applies the mapper to
  what it yields, and returns the computed values as \<open>lazyToGreedy\<close> of them would:
  forcing the result, or its elements, forces nothing of the input. With journalled
  elements (and a mapper that forces none of them), the journal after a call that
  returns has grown by the positions \<open>0\<close>, ..., \<open>n - 1\<close>: each element was forced exactly
  once, in the order of the array.
\<close>

theorem mapLazy_array_forces_elements:
  fixes ts :: "('a, 'z journal_scheme) Lazy list"
    and mapper' :: "'a \<Rightarrow> ('b, 'z journal_scheme) eff"
  shows
  "mapLazy_array arr mapper s =
     bnd arr (\<lambda>a. bnd (mapM (\<lambda>l. bnd (force l) mapper) a) (\<lambda>us. ret (lazyToGreedy us))) s \<and>
   ((\<forall>t \<in> set ts. keeps forcedElements t) \<and> (\<forall>v. keeps forcedElements (mapper' v)) \<and>
      mapLazy_array (lazify (logElements ts)) mapper' \<sigma> = (Inr result, \<sigma>') \<longrightarrow>
    forcedElements \<sigma>' = forcedElements \<sigma> @ [0..<length ts])"
proof -
  have "forcedElements \<sigma>' = forcedElements \<sigma> @ [0..<length ts]"
    if k: "\<forall>t \<in> set ts. keeps forcedElements t" and m: "\<forall>v. keeps forcedElements (mapper' v)"
      and r: "mapLazy_array (lazify (logElements ts)) mapper' \<sigma> = (Inr result, \<sigma>')"
  proof -
    from r obtain us where
      "mapM (\<lambda>l. bnd (force l) mapper') (logElements ts) \<sigma> = (Inr us, \<sigma>')"
      unfolding mapLazy_array_unfold
      by (auto simp: bnd_lazify ret_apply elim!: bnd_ends)
    then show ?thesis
      using mapM_logged [of ts mapper' 0 \<sigma> us \<sigma>'] k m by (simp add: logElements_def)
  qed
  then show ?thesis using mapLazy_array_unfold [of arr mapper s] by blast
qed

theorem mapLazy_array_forces_elements_witness:
  "keeps forcedElements (lazify (Num (Fin 1)) :: (Comparable, journal) Lazy) \<and>
   keeps forcedElements (lazify (Num (Fin 3)) :: (Comparable, journal) Lazy) \<and>
   (\<forall>v. keeps forcedElements (ret (jsMinus v (Num (Fin 1))) :: (number, journal) eff)) \<and>
   mapLazy_array (lazify (logElements [lazify (Num (Fin 1)), lazify (Num (Fin 3))]))
       (\<lambda>v. ret (jsMinus v (Num (Fin 1)))) journal0
     = (Inr (lazyToGreedy [Fin 0, Fin 2]), journal0\<lparr>forcedElements := [0, 1]\<rparr>) \<and>
   forcedElements (journal0\<lparr>forcedElements := [0, 1]\<rparr>)
     = forcedElements journal0 @ [0..<length [lazify (Num (Fin 1)), lazify (Num (Fin 3)) :: (Comparable, journal) Lazy]]"
proof -
  let ?ts = "[lazify (Num (Fin 1)), lazify (Num (Fin 3))] :: (Comparable, journal) Lazy list"
  let ?mapper = "\<lambda>v. ret (jsMinus v (Num (Fin 1))) :: (number, journal) eff"
  have k: "\<forall>t \<in> set ?ts. keeps forcedElements t" by (simp add: keeps_lazify)
  have m: "\<forall>v. keeps forcedElements (?mapper v)" by (simp add: keeps_ret)
  have run: "mapLazy_array (lazify (logElements ?ts)) ?mapper journal0
     = (Inr (lazyToGreedy [Fin 0, Fin 2]), journal0\<lparr>forcedElements := [0, 1]\<rparr>)"
    by (simp add: mapLazy_array_def logElements_def logElement_def bnd_lazify force_def
        lazyToGreedy_def jsMinus_def bnd_def ret_def lazify_apply journal0_def)
  have "forcedElements (journal0\<lparr>forcedElements := [0, 1]\<rparr>)
     = forcedElements journal0 @ [0..<length ?ts]"
    by (rule mapLazy_array_forces_elements [where ts = ?ts and mapper' = ?mapper and \<sigma> = journal0
          and result = "lazyToGreedy [Fin 0, Fin 2]" and \<sigma>' = "journal0\<lparr>forcedElements := [0, 1]\<rparr>",
          THEN conjunct2, THEN mp, OF conjI [OF k conjI [OF m run]]])
  then show ?thesis using k m run by (simp add: keeps_lazify keeps_ret)
qed


text \<open>
  C4 as stated fails: after the call of the map over a lazy array of two counted
  elements, before anything is forced by the caller, both elements have been forced.
\<close>

theorem mapLazy_array_counterexample:
  "elementForces (snd (mapLazy_array (lazify [Elem (countElement (lazify (Num (Fin 1)))),
       Elem (countElement (lazify (Num (Fin 3))))]) (ret :: Comparable \<Rightarrow> (Comparable, probe) eff)
     probe0)) = 2 \<and>
   elementForces probe0 = 0"
  by (simp add: mapLazy_array_def bnd_lazify force_def countElement_def
      bnd_def ret_def lazify_apply probe0_def)

end
